theory Spec2Isabelle
  imports Main "HOL-Library.Word" "HOL-Library.AList"
begin

section \<open>The tensor IR as an explicit store\<close>

text \<open>
  \<^verbatim>\<open>NodeIRScheduler.cpp\<close> works on pointers into the ONNX IR. Pointers are
  modelled as identifiers into a store: \<open>nid\<close> stands for \<^verbatim>\<open>onnx::Node *\<close>,
  \<open>vid\<close> for \<^verbatim>\<open>onnx::Value *\<close> and \<open>rid\<close> for \<^verbatim>\<open>const ExeResource *\<close>.
  C++ \<^verbatim>\<open>unsigned\<close> is a 32-bit word, so that subtraction wraps as in the source.
\<close>

type_synonym nid = nat
type_synonym vid = nat
type_synonym rid = nat
type_synonym u32 = "32 word"

text \<open>An \<^verbatim>\<open>onnx::Symbol\<close> is an interned string; two symbols are equal iff their names are.\<close>

datatype symbol = Symbol string

definition kUndefined :: symbol where
  "kUndefined = Symbol ''Undefined''"

definition kReturn :: symbol where
  "kReturn = Symbol ''Return''"

fun toString :: "symbol \<Rightarrow> string" where
  "toString (Symbol s) = s"

record Node =
  kind :: symbol
  inputs :: "vid list"
  outputs :: "vid list"

text \<open>
  A value knows its producer (\<^verbatim>\<open>v->node()\<close>, \<open>None\<close> for \<^verbatim>\<open>nullptr\<close>) and its
  uses, each a pair of the using node and the input slot (\<^verbatim>\<open>u.user\<close>, \<^verbatim>\<open>u.offset\<close>).
\<close>

record Value =
  node :: "nid option"
  uses :: "(nid \<times> nat) list"
  uniqueName :: string

text \<open>
  \<open>nodes\<close> is what \<^verbatim>\<open>pGraph.nodes()\<close> iterates, in graph order. The return sentinel
  closes the node list in the IR and is not one of its elements; it appears only as a
  user of the graph's outputs. \<open>g_inputs\<close> and \<open>g_outputs\<close> are what
  \<^verbatim>\<open>pGraph.inputs()\<close> and \<^verbatim>\<open>pGraph.outputs()\<close> return. \<open>fresh_node\<close> and
  \<open>fresh_value\<close> are the next identifiers that \<^verbatim>\<open>pGraph.create\<close> hands out.
\<close>

record Graph =
  nodes :: "nid list"
  nodeAt :: "nid \<Rightarrow> Node"
  valueAt :: "vid \<Rightarrow> Value"
  g_inputs :: "vid list"
  g_outputs :: "vid list"
  fresh_node :: nid
  fresh_value :: vid

subsection \<open>Operations of the IR library used by the scheduler\<close>

definition position :: "Graph \<Rightarrow> nid \<Rightarrow> nat" where
  \<comment> \<open>Modelled from the spec: the IR's node order (\<^verbatim>\<open>isBefore\<close>, \<^verbatim>\<open>insertBefore\<close>) is
      declared outside the given sources. A node's position is its index in graph
      order; a node outside the list (the return sentinel) sits after every node.\<close>
  "position g n = length (takeWhile (\<lambda>m. m \<noteq> n) (nodes g))"

definition isBefore :: "Graph \<Rightarrow> nid \<Rightarrow> nid \<Rightarrow> bool" where
  \<comment> \<open>Modelled from the spec: \<^verbatim>\<open>a->isBefore(b)\<close>, comparison in graph order.\<close>
  "isBefore g a b = (position g a < position g b)"

definition insertBefore :: "Graph \<Rightarrow> nid \<Rightarrow> nid \<Rightarrow> Graph" where
  \<comment> \<open>Modelled from the spec: \<^verbatim>\<open>n->insertBefore(t)\<close> links \<open>n\<close> immediately before
      \<open>t\<close>; before the return sentinel this is the end of the list.\<close>
  "insertBefore g n t =
     g\<lparr>nodes := take (position g t) (nodes g) @ [n] @ drop (position g t) (nodes g)\<rparr>"

definition addUse :: "nid \<Rightarrow> Graph \<times> nat \<Rightarrow> vid \<Rightarrow> Graph \<times> nat" where
  \<comment> \<open>Modelled from the spec: \<^verbatim>\<open>addInput\<close> as \<^verbatim>\<open>create\<close> calls it; it records the use
      of \<open>v\<close> at the next input slot.\<close>
  "addUse n acc v =
     (case acc of (g, k) \<Rightarrow>
        (g\<lparr>valueAt := (valueAt g)(v := (valueAt g v)\<lparr>uses := uses (valueAt g v) @ [(n, k)]\<rparr>)\<rparr>,
         Suc k))"

definition create :: "Graph \<Rightarrow> symbol \<Rightarrow> vid list \<Rightarrow> Graph \<times> nid \<times> vid" where
  \<comment> \<open>Modelled from the spec: \<^verbatim>\<open>pGraph.create(kind, inputs)\<close> allocates a node of the
      given kind with the given inputs and one fresh output value, not yet linked
      into the node list. The result is the graph, the node and its output.\<close>
  "create g k ins =
     (let n = fresh_node g; out = fresh_value g;
          g1 = g\<lparr>nodeAt := (nodeAt g)(n := \<lparr>kind = k, inputs = ins, outputs = [out]\<rparr>),
                 valueAt := (valueAt g)(out := \<lparr>node = Some n, uses = [], uniqueName = []\<rparr>),
                 fresh_node := Suc n, fresh_value := Suc out\<rparr>
      in (fst (foldl (addUse n) (g1, 0) ins), n, out))"

definition copyMetadata :: "Graph \<Rightarrow> vid \<Rightarrow> vid \<Rightarrow> Graph" where
  \<comment> \<open>Modelled from the spec: \<^verbatim>\<open>dst->copyMetadata(src)\<close>; of the metadata only the
      name is kept in this model.\<close>
  "copyMetadata g dst src =
     g\<lparr>valueAt := (valueAt g)(dst := (valueAt g dst)\<lparr>uniqueName := uniqueName (valueAt g src)\<rparr>)\<rparr>"

definition rebindUse :: "vid \<Rightarrow> Graph \<Rightarrow> nid \<times> nat \<Rightarrow> Graph" where
  \<comment> \<open>Modelled from the spec: one step of \<^verbatim>\<open>replaceAllUsesWith\<close>; the input slot of
      the use is set to \<open>new\<close>, and the use is recorded with \<open>new\<close>.\<close>
  "rebindUse new g u =
     g\<lparr>nodeAt := (nodeAt g)(fst u := (nodeAt g (fst u))\<lparr>inputs := (inputs (nodeAt g (fst u)))[snd u := new]\<rparr>),
       valueAt := (valueAt g)(new := (valueAt g new)\<lparr>uses := uses (valueAt g new) @ [u]\<rparr>)\<rparr>"

definition replaceAllUsesWith :: "Graph \<Rightarrow> vid \<Rightarrow> vid \<Rightarrow> Graph" where
  \<comment> \<open>Modelled from the spec: \<^verbatim>\<open>v->replaceAllUsesWith(new)\<close> rebinds every consumer
      of \<open>v\<close> to \<open>new\<close> and leaves \<open>v\<close> without uses.\<close>
  "replaceAllUsesWith g v new =
     (let g1 = foldl (rebindUse new) g (uses (valueAt g v))
      in g1\<lparr>valueAt := (valueAt g1)(v := (valueAt g1 v)\<lparr>uses := []\<rparr>)\<rparr>)"

section \<open>Boundary normalisation\<close>

definition HasInsertedLoadStoreNode :: "Graph \<Rightarrow> bool" where
  \<comment> \<open>\<^verbatim>\<open>pGraph.nodes().rbegin()->kind() == onnx::Symbol("Store")\<close>. On an empty node
      list the reverse iterator rests on the return sentinel, whose kind is not Store.\<close>
  "HasInsertedLoadStoreNode g =
     (case nodes g of [] \<Rightarrow> False | _ \<Rightarrow> kind (nodeAt g (last (nodes g))) = Symbol ''Store'')"

text \<open>The scan for the earliest user of an input value (lines 31 to 40).\<close>

fun first_user :: "Graph \<Rightarrow> (nid \<times> nat) list \<Rightarrow> nid option \<Rightarrow> nid option" where
  "first_user g [] firstN = firstN"
| "first_user g (u # us) firstN =
     (case firstN of
        None \<Rightarrow> first_user g us (Some (fst u))
      | Some f \<Rightarrow>
          if \<not> isBefore g f (fst u) then first_user g us (Some (fst u))
          else first_user g us firstN)"

text \<open>The scan for the latest user of an output value (lines 50 to 59).\<close>

fun last_user :: "Graph \<Rightarrow> (nid \<times> nat) list \<Rightarrow> nid option \<Rightarrow> nid option" where
  "last_user g [] lastN = lastN"
| "last_user g (u # us) lastN =
     (case lastN of
        None \<Rightarrow> last_user g us (Some (fst u))
      | Some l \<Rightarrow>
          if isBefore g l (fst u) then last_user g us (Some (fst u))
          else last_user g us lastN)"

text \<open>
  The two loops of \<^verbatim>\<open>InsertLoadStoreNode\<close>. A value without uses leaves the insertion
  point \<^verbatim>\<open>nullptr\<close>, and \<^verbatim>\<open>insertBefore(nullptr)\<close> is undefined behaviour: the
  result is \<open>None\<close>.
\<close>

fun insert_loads :: "Graph \<Rightarrow> vid list \<Rightarrow> Graph option" where
  "insert_loads g [] = Some g"
| "insert_loads g (v # vs) =
     (case first_user g (uses (valueAt g v)) None of
        None \<Rightarrow> None
      | Some firstN \<Rightarrow>
          (case create g (Symbol ''Load'') [] of
             (g1, loadN, out) \<Rightarrow>
               insert_loads
                 (replaceAllUsesWith (copyMetadata (insertBefore g1 loadN firstN) out v) v out)
                 vs))"

fun insert_stores :: "Graph \<Rightarrow> vid list \<Rightarrow> Graph option" where
  "insert_stores g [] = Some g"
| "insert_stores g (v # vs) =
     (case last_user g (uses (valueAt g v)) None of
        None \<Rightarrow> None
      | Some lastN \<Rightarrow>
          (case create g (Symbol ''Store'') [v] of
             (g1, storeN, out) \<Rightarrow>
               insert_stores (insertBefore (copyMetadata g1 out v) storeN lastN) vs))"

definition InsertLoadStoreNode :: "Graph \<Rightarrow> Graph option" where
  "InsertLoadStoreNode g =
     (case insert_loads g (g_inputs g) of
        None \<Rightarrow> None
      | Some g1 \<Rightarrow> insert_stores g1 (g_outputs g1))"

text \<open>
  Lines 174 and 175 of \<^verbatim>\<open>runOnModule\<close>:
  \<^verbatim>\<open>if (!HasInsertedLoadStoreNode(graph)); InsertLoadStoreNode(graph);\<close>
  The semicolon after the condition is the whole body of the \<^verbatim>\<open>if\<close>: the test is
  evaluated, nothing depends on it, and the call that follows is unconditional.
\<close>

definition normalize_boundary :: "Graph \<Rightarrow> Graph option" where
  "normalize_boundary g =
     (let g1 = (if \<not> HasInsertedLoadStoreNode g then g else g)
      in InsertLoadStoreNode g1)"

section \<open>Readiness tracking\<close>

type_synonym DegreeMap = "nid \<rightharpoonup> u32"

definition warning :: "symbol \<Rightarrow> string \<Rightarrow> string" where
  "warning k nm =
     ''Warning! '' @ toString k @ '' use a value = '' @ nm @ '', which doen't bind to a node''"

text \<open>The inner loop of \<^verbatim>\<open>BuildDegreeMap\<close> over the inputs of node \<open>n\<close> (lines 89 to 95).\<close>

fun count_degree :: "Graph \<Rightarrow> nid \<Rightarrow> vid list \<Rightarrow> u32 \<times> string list \<Rightarrow> u32 \<times> string list" where
  "count_degree g n [] acc = acc"
| "count_degree g n (v # vs) (degcnt, out) =
     (if node (valueAt g v) = None
      then count_degree g n vs
             (degcnt - 1, out @ [warning (kind (nodeAt g n)) (uniqueName (valueAt g v))])
      else count_degree g n vs (degcnt, out))"

fun build_loop :: "Graph \<Rightarrow> nid list \<Rightarrow> DegreeMap \<times> string list \<Rightarrow> DegreeMap \<times> string list" where
  "build_loop g [] acc = acc"
| "build_loop g (n # ns) (dm, out) =
     (if kind (nodeAt g n) = kUndefined then build_loop g ns (dm, out)
      else
        (case count_degree g n (inputs (nodeAt g n))
                (of_nat (length (inputs (nodeAt g n))), out) of
           (degcnt, out') \<Rightarrow> build_loop g ns (dm(n \<mapsto> degcnt), out')))"

text \<open>The result is the map together with the text written to \<^verbatim>\<open>outs()\<close>, one entry per warning.\<close>

definition BuildDegreeMap :: "Graph \<Rightarrow> DegreeMap \<times> string list" where
  "BuildDegreeMap g = build_loop g (nodes g) (Map.empty, [])"

section \<open>The resource ledger\<close>

record ExeResUser =
  user :: nid
  remainCycles :: u32

text \<open>
  \<^verbatim>\<open>m_ExeResUsers\<close> maps a resource to the vector of its users. It is kept as an
  association list; the order of its entries is the order of iteration.
\<close>

type_synonym ledger = "(rid \<times> ExeResUser list) list"

text \<open>
  The target's cost model, reached through \<^verbatim>\<open>m_DLATB->getTTI()\<close>, and the capacity
  \<^verbatim>\<open>numUnits\<close> of each resource are declared outside the given sources; they are
  parameters. \<open>numUnits\<close> is taken as an unsigned quantity.
\<close>

record backend =
  queryExeResType :: "nid \<Rightarrow> rid"
  getOperatorCost :: "nid \<Rightarrow> int"
  numUnits :: "rid \<Rightarrow> nat"

text \<open>
  \<^verbatim>\<open>m_ExeResUsers.find(pExeRes)->second.size() < pExeRes->numUnits\<close>. Dereferencing
  the end iterator of a resource without entry is undefined behaviour: \<open>None\<close>.
\<close>

definition isExeResAvailable :: "backend \<Rightarrow> ledger \<Rightarrow> rid \<Rightarrow> bool option" where
  "isExeResAvailable B L r =
     (case map_of L r of None \<Rightarrow> None | Some us \<Rightarrow> Some (length us < numUnits B r))"

text \<open>
  \<^verbatim>\<open>int c = ...getOperatorCost(pUser, kCycleCount)\<close> is stored in the unsigned field
  \<^verbatim>\<open>remainCycles\<close>: the cost modulo \<open>2^32\<close>. \<^verbatim>\<open>m_ExeResUsers[pExeRes]\<close> creates the
  entry when it is missing.
\<close>

definition addExeResUser :: "backend \<Rightarrow> ledger \<Rightarrow> rid \<Rightarrow> nid \<Rightarrow> ledger" where
  "addExeResUser B L r n =
     (let c = (word_of_int (getOperatorCost B n) :: u32);
          us = (case map_of L r of None \<Rightarrow> [] | Some us \<Rightarrow> us)
      in AList.update r (us @ [\<lparr>user = n, remainCycles = c\<rparr>]) L)"

text \<open>\<^verbatim>\<open>vector::erase(begin() + i)\<close>; an index past the end is undefined behaviour.\<close>

definition erase :: "'a list \<Rightarrow> nat \<Rightarrow> 'a list option" where
  "erase xs i = (if i < length xs then Some (take i xs @ drop (Suc i) xs) else None)"

subsection \<open>updateResList\<close>

text \<open>Lines 117 to 120: the minimum over every user of every resource, starting from \<^verbatim>\<open>UINT_MAX\<close>.\<close>

definition UINT_MAX :: u32 where
  "UINT_MAX = 4294967295"

definition min_users :: "ExeResUser list \<Rightarrow> u32 \<Rightarrow> u32" where
  "min_users us minCycle = foldl (\<lambda>m u. min m (remainCycles u)) minCycle us"

definition min_ledger :: "ledger \<Rightarrow> u32" where
  "min_ledger L = foldl (\<lambda>m it. min_users (snd it) m) UINT_MAX L"

text \<open>
  Lines 126 to 130: the loop over the indices of one user list, which subtracts the
  minimum in place and records in \<open>rmList\<close> the indices that reach zero.
\<close>

function subtract_loop :: "u32 \<Rightarrow> nat \<Rightarrow> ExeResUser list \<times> nat list \<Rightarrow> ExeResUser list \<times> nat list" where
  "subtract_loop minCycle i (userList, rmList) =
     (if i < length userList then
        (let u = (userList ! i)\<lparr>remainCycles := remainCycles (userList ! i) - minCycle\<rparr>
         in subtract_loop minCycle (Suc i)
              (userList[i := u], if remainCycles u = 0 then rmList @ [i] else rmList))
      else (userList, rmList))"
  by pat_completeness auto
termination
  by (relation "measure (\<lambda>(m, i, us, rm). length us - i)") auto

text \<open>
  Lines 133 and 134:
  \<^verbatim>\<open>for (int i = rmList.size() - 1; i >= 0; --i) userList.erase(userList.begin() + i);\<close>
  The loop variable itself is the erased index; \<open>rmList\<close> contributes only its size.
\<close>

function release_loop :: "int \<Rightarrow> ExeResUser list \<Rightarrow> ExeResUser list option" where
  "release_loop i userList =
     (if i \<ge> 0 then
        (case erase userList (nat i) of
           None \<Rightarrow> None
         | Some userList' \<Rightarrow> release_loop (i - 1) userList')
      else Some userList)"
  by pat_completeness auto
termination
  by (relation "measure (\<lambda>(i, us). nat (i + 1))") auto

definition update_users :: "u32 \<Rightarrow> ExeResUser list \<Rightarrow> ExeResUser list option" where
  "update_users minCycle userList =
     (case subtract_loop minCycle 0 (userList, []) of
        (userList', rmList) \<Rightarrow> release_loop (int (length rmList) - 1) userList')"

fun update_entries :: "u32 \<Rightarrow> ledger \<Rightarrow> ledger option" where
  "update_entries minCycle [] = Some []"
| "update_entries minCycle (it # L) =
     (case update_users minCycle (snd it) of
        None \<Rightarrow> None
      | Some us \<Rightarrow>
          (case update_entries minCycle L of
             None \<Rightarrow> None
           | Some L' \<Rightarrow> Some ((fst it, us) # L')))"

text \<open>The new ledger and the returned minimum.\<close>

definition updateResList :: "ledger \<Rightarrow> (ledger \<times> u32) option" where
  "updateResList L =
     (let minCycle = min_ledger L
      in case update_entries minCycle L of
           None \<Rightarrow> None
         | Some L' \<Rightarrow> Some (L', minCycle))"

subsection \<open>greedyPickNextNodes\<close>

text \<open>
  Lines 144 to 156, the scan over the candidates by index. The state is the ledger,
  \<open>next\<close> and \<open>rmList\<close>.
\<close>

function pick_loop :: "backend \<Rightarrow> nid list \<Rightarrow> nat \<Rightarrow> ledger \<times> nid list \<times> nat list
                        \<Rightarrow> (ledger \<times> nid list \<times> nat list) option" where
  "pick_loop B pCands i (L, next, rmList) =
     (if i < length pCands then
        (let n = pCands ! i;
             res = queryExeResType B n;
             L1 = (if map_of L res = None then AList.update res [] L else L)
         in case isExeResAvailable B L1 res of
              None \<Rightarrow> None
            | Some avail \<Rightarrow>
                if avail
                then pick_loop B pCands (Suc i) (addExeResUser B L1 res n, next @ [n], rmList @ [i])
                else pick_loop B pCands (Suc i) (L1, next, rmList))
      else Some (L, next, rmList))"
  by pat_completeness auto
termination
  by (relation "measure (\<lambda>(B, c, i, s). length c - i)") auto

text \<open>Lines 158 and 159: the recorded indices are erased from the last to the first.\<close>

fun erase_all :: "'a list \<Rightarrow> nat list \<Rightarrow> 'a list option" where
  "erase_all xs [] = Some xs"
| "erase_all xs (i # js) =
     (case erase xs i of None \<Rightarrow> None | Some xs' \<Rightarrow> erase_all xs' js)"

text \<open>The result is \<open>next\<close>, the candidates left in place, and the new ledger.\<close>

definition greedyPickNextNodes :: "backend \<Rightarrow> nid list \<Rightarrow> ledger
                                    \<Rightarrow> (nid list \<times> nid list \<times> ledger) option" where
  "greedyPickNextNodes B pCands L =
     (case pick_loop B pCands 0 (L, [], []) of
        None \<Rightarrow> None
      | Some (L', next, rmList) \<Rightarrow>
          (case erase_all pCands (rev rmList) of
             None \<Rightarrow> None
           | Some pCands' \<Rightarrow> Some (next, pCands', L')))"

text \<open>
  The admission pass in the words of the specification: one pass from left to right;
  a candidate whose resource is available when it is reached is admitted, any other
  stays queued.
\<close>

definition ensure_entry :: "rid \<Rightarrow> ledger \<Rightarrow> ledger" where
  "ensure_entry r L = (if map_of L r = None then AList.update r [] L else L)"

definition available :: "backend \<Rightarrow> ledger \<Rightarrow> rid \<Rightarrow> bool" where
  "available B L r = (length (case map_of L r of None \<Rightarrow> [] | Some us \<Rightarrow> us) < numUnits B r)"

fun greedy_admit :: "backend \<Rightarrow> nid list \<Rightarrow> ledger \<Rightarrow> nid list \<times> nid list \<times> ledger" where
  "greedy_admit B [] L = ([], [], L)"
| "greedy_admit B (n # ns) L =
     (let r = queryExeResType B n; L1 = ensure_entry r L
      in if available B L1 r
         then (case greedy_admit B ns (addExeResUser B L1 r n) of
                 (admitted, queued, L') \<Rightarrow> (n # admitted, queued, L'))
         else (case greedy_admit B ns L1 of
                 (admitted, queued, L') \<Rightarrow> (admitted, n # queued, L')))"

section \<open>The scheduling pass\<close>

datatype ReturnType = kPassFailure | kModuleNoChanged

text \<open>
  The state \<^verbatim>\<open>runOnModule\<close> works on: the module's graph, the scheduler's ledger, the
  two output streams, and the locals \<open>dmap\<close> and \<open>worklist\<close> of \<^verbatim>\<open>runOnModule\<close>.
  \<open>pushlog\<close> is a history variable: it records every \<^verbatim>\<open>worklist.push_back\<close> of a run,
  in order, and nothing reads it.
\<close>

record machine =
  graph :: Graph
  m_ExeResUsers :: ledger
  dmap :: DegreeMap
  worklist :: "nid list"
  pushlog :: "nid list"
  outs :: "string list"
  errs :: "string list"

text \<open>
  \<open>Returned\<close>: the pass returned. \<open>Running\<close>: the \<^verbatim>\<open>while\<close> loop has completed the
  given number of rounds and its condition still holds. \<open>Aborted\<close>: undefined behaviour
  or the failed assertion of line 198.
\<close>

datatype outcome = Returned ReturnType machine | Running machine | Aborted

definition clear :: "machine \<Rightarrow> machine" where
  \<comment> \<open>Modelled from the spec: \<^verbatim>\<open>clear()\<close> is declared outside the given sources; the
      ledger is scratch state created fresh per scheduling run.\<close>
  "clear m = m\<lparr>m_ExeResUsers := []\<rparr>"

definition push_back_worklist :: "nid \<Rightarrow> machine \<Rightarrow> machine" where
  "push_back_worklist n m = m\<lparr>worklist := worklist m @ [n], pushlog := pushlog m @ [n]\<rparr>"

text \<open>
  Lines 181 to 187. \<^verbatim>\<open>dmap[n]\<close> on a missing key inserts the value 0.
\<close>

fun seed_worklist :: "nid list \<Rightarrow> machine \<Rightarrow> machine" where
  "seed_worklist [] m = m"
| "seed_worklist (n # ns) m =
     (if kind (nodeAt (graph m) n) = kUndefined then seed_worklist ns m
      else
        (case dmap m n of
           None \<Rightarrow> seed_worklist ns (push_back_worklist n (m\<lparr>dmap := (dmap m)(n \<mapsto> 0)\<rparr>))
         | Some d \<Rightarrow>
             if d = 0 then seed_worklist ns (push_back_worklist n m)
             else seed_worklist ns m))"

text \<open>Lines 194 to 204, for the uses of one output value.\<close>

fun visit_uses :: "(nid \<times> nat) list \<Rightarrow> machine \<Rightarrow> machine option" where
  "visit_uses [] m = Some m"
| "visit_uses (u # us) m =
     (if kind (nodeAt (graph m) (fst u)) = kReturn then visit_uses us m
      else
        (case dmap m (fst u) of
           None \<Rightarrow> None
         | Some d \<Rightarrow>
             (let m1 = m\<lparr>dmap := (dmap m)(fst u \<mapsto> d - 1)\<rparr>
              in visit_uses us (if d - 1 = 0 then push_back_worklist (fst u) m1 else m1))))"

text \<open>Lines 192 to 205, for the output values of one picked node.\<close>

fun visit_outputs :: "vid list \<Rightarrow> machine \<Rightarrow> machine option" where
  "visit_outputs [] m = Some m"
| "visit_outputs (v # vs) m =
     (case visit_uses (uses (valueAt (graph m) v)) m of
        None \<Rightarrow> None
      | Some m' \<Rightarrow> visit_outputs vs m')"

text \<open>Lines 191 to 206, for the picked nodes.\<close>

fun visit_picked :: "nid list \<Rightarrow> machine \<Rightarrow> machine option" where
  "visit_picked [] m = Some m"
| "visit_picked (n # ns) m =
     (case visit_outputs (outputs (nodeAt (graph m) n)) m of
        None \<Rightarrow> None
      | Some m' \<Rightarrow> visit_picked ns m')"

text \<open>One iteration of the \<^verbatim>\<open>while\<close> loop (lines 190 to 206).\<close>

definition sched_round :: "backend \<Rightarrow> machine \<Rightarrow> machine option" where
  "sched_round B m =
     (case greedyPickNextNodes B (worklist m) (m_ExeResUsers m) of
        None \<Rightarrow> None
      | Some (next, pCands, L) \<Rightarrow>
          visit_picked next (m\<lparr>worklist := pCands, m_ExeResUsers := L\<rparr>))"

text \<open>
  The \<^verbatim>\<open>while\<close> loop of lines 189 to 207, followed by the return of line 209. The
  first argument bounds the number of rounds.
\<close>

fun sched_loop :: "nat \<Rightarrow> backend \<Rightarrow> machine \<Rightarrow> outcome" where
  "sched_loop 0 B m =
     (if worklist m = [] then Returned kModuleNoChanged m else Running m)"
| "sched_loop (Suc k) B m =
     (if worklist m = [] then Returned kModuleNoChanged m
      else
        (case sched_round B m of
           None \<Rightarrow> Aborted
         | Some m' \<Rightarrow> sched_loop k B m'))"

text \<open>Lines 177 to 209: the pass from the construction of the degree map on.\<close>

definition schedule :: "nat \<Rightarrow> backend \<Rightarrow> machine \<Rightarrow> outcome" where
  "schedule fuel B m =
     (case BuildDegreeMap (graph m) of
        (dm, w) \<Rightarrow>
          sched_loop fuel B
            (seed_worklist (nodes (graph m))
               (m\<lparr>dmap := dm, worklist := [], pushlog := [], outs := outs m @ w\<rparr>)))"

definition no_backend_message :: string where
  "no_backend_message =
     ''No backend infomation that is needed for memory allcation.'' @ [CHR 0x0A]"

text \<open>\<^verbatim>\<open>runOnModule\<close>; \<open>None\<close> for the backend is the null \<^verbatim>\<open>m_DLATB\<close>.\<close>

definition runOnModule :: "nat \<Rightarrow> backend option \<Rightarrow> machine \<Rightarrow> outcome" where
  "runOnModule fuel m_DLATB m =
     (case m_DLATB of
        None \<Rightarrow> Returned kPassFailure (m\<lparr>errs := errs m @ [no_backend_message]\<rparr>)
      | Some B \<Rightarrow>
          (case normalize_boundary (graph (clear m)) of
             None \<Rightarrow> Aborted
           | Some g \<Rightarrow> schedule fuel B ((clear m)\<lparr>graph := g\<rparr>)))"

section \<open>Auxiliary notions for the proofs\<close>

text \<open>The indices that the scan of \<^verbatim>\<open>greedyPickNextNodes\<close> records, counted from \<open>i\<close>.\<close>

fun greedy_idx :: "backend \<Rightarrow> nid list \<Rightarrow> nat \<Rightarrow> ledger \<Rightarrow> nat list" where
  "greedy_idx B [] i L = []"
| "greedy_idx B (n # ns) i L =
     (let r = queryExeResType B n; L1 = ensure_entry r L
      in if available B L1 r
         then i # greedy_idx B ns (Suc i) (addExeResUser B L1 r n)
         else greedy_idx B ns (Suc i) L1)"

text \<open>The inputs of a node that have no producing node, and the warnings they cause.\<close>

definition dangling :: "Graph \<Rightarrow> nid \<Rightarrow> vid list" where
  "dangling g n = filter (\<lambda>v. node (valueAt g v) = None) (inputs (nodeAt g n))"

definition warnings_of :: "Graph \<Rightarrow> nid \<Rightarrow> string list" where
  "warnings_of g n =
     map (\<lambda>v. warning (kind (nodeAt g n)) (uniqueName (valueAt g v))) (dangling g n)"

text \<open>The nodes of the graph that are not of the undefined kind, in graph order.\<close>

definition schedulable :: "Graph \<Rightarrow> nid list" where
  "schedulable g = filter (\<lambda>n. kind (nodeAt g n) \<noteq> kUndefined) (nodes g)"

definition degree_of :: "Graph \<Rightarrow> nid \<Rightarrow> u32" where
  "degree_of g n = of_nat (length (inputs (nodeAt g n)) - length (dangling g n))"

text \<open>The capacity invariant of the ledger: no resource has more users than units.\<close>

definition cap_ok :: "backend \<Rightarrow> ledger \<Rightarrow> bool" where
  "cap_ok B L = list_all (\<lambda>it. length (snd it) \<le> numUnits B (fst it)) L"

text \<open>
  The nodes whose degree the propagation of lines 192 to 205 decrements: for a value,
  its users other than the return sentinel, one entry per use; for a picked node, the
  users of its outputs, in the order of the loops.
\<close>

definition consumers :: "Graph \<Rightarrow> vid \<Rightarrow> nid list" where
  "consumers g v =
     map fst (filter (\<lambda>u. kind (nodeAt g (fst u)) \<noteq> kReturn) (uses (valueAt g v)))"

definition targets :: "Graph \<Rightarrow> nid \<Rightarrow> nid list" where
  "targets g p = concat (map (consumers g) (outputs (nodeAt g p)))"

text \<open>The body of the innermost loop (lines 197 to 203), run over a list of users.\<close>

fun dec_all :: "nid list \<Rightarrow> machine \<Rightarrow> machine option" where
  "dec_all [] m = Some m"
| "dec_all (t # ts) m =
     (case dmap m t of
        None \<Rightarrow> None
      | Some d \<Rightarrow>
          (let m1 = m\<lparr>dmap := (dmap m)(t \<mapsto> d - 1)\<rparr>
           in dec_all ts (if d - 1 = 0 then push_back_worklist t m1 else m1)))"

text \<open>
  A well-formed graph, as far as the scheduler reads it: the node list has no
  repetition; a node has fewer than \<open>2^32\<close> inputs; the outputs of a node are distinct
  and name it as their producer; every use of an output by a node other than the
  return sentinel is a use by a node of the graph that is not of the undefined kind,
  and a node uses a value as many times as the value occurs among its inputs.
\<close>

definition wf_graph :: "Graph \<Rightarrow> bool" where
  "wf_graph g \<longleftrightarrow>
     distinct (nodes g) \<and>
     (\<forall>n \<in> set (nodes g).
        length (inputs (nodeAt g n)) < 2 ^ 32 \<and>
        distinct (outputs (nodeAt g n)) \<and>
        (\<forall>v \<in> set (outputs (nodeAt g n)).
           node (valueAt g v) = Some n \<and>
           (\<forall>u \<in> set (consumers g v).
              u \<in> set (schedulable g) \<and>
              count_list (consumers g v) u = count_list (inputs (nodeAt g u)) v)))"

text \<open>Pre- and postcondition of a run of \<open>dec_all\<close>, and the invariant of the loop.\<close>

definition dec_pre :: "nid list \<Rightarrow> machine \<Rightarrow> bool" where
  "dec_pre T m \<longleftrightarrow>
     set T \<subseteq> dom (dmap m) \<and>
     (\<forall>u d. dmap m u = Some d \<longrightarrow> count_list T u \<le> unat d) \<and>
     distinct (pushlog m) \<and> distinct (worklist m) \<and>
     set (worklist m) \<subseteq> set (pushlog m) \<and>
     (\<forall>u. u \<in> set (pushlog m) \<longleftrightarrow> dmap m u = Some 0)"

definition dec_post :: "nid list \<Rightarrow> machine \<Rightarrow> machine \<Rightarrow> bool" where
  "dec_post T m m' \<longleftrightarrow>
     graph m' = graph m \<and> m_ExeResUsers m' = m_ExeResUsers m \<and>
     dom (dmap m') = dom (dmap m) \<and>
     (\<forall>u d. dmap m u = Some d \<longrightarrow> (\<exists>d'. dmap m' u = Some d' \<and> unat d' + count_list T u = unat d)) \<and>
     (\<exists>new. pushlog m' = pushlog m @ new \<and> worklist m' = worklist m @ new) \<and>
     distinct (pushlog m') \<and> distinct (worklist m') \<and>
     (\<forall>u. u \<in> set (pushlog m') \<longleftrightarrow> dmap m' u = Some 0)"

definition pending :: "machine \<Rightarrow> nid set" where
  "pending m = {p \<in> set (nodes (graph m)). p \<notin> set (pushlog m) \<or> p \<in> set (worklist m)}"

definition sched_inv :: "machine \<Rightarrow> bool" where
  "sched_inv m \<longleftrightarrow>
     wf_graph (graph m) \<and>
     dom (dmap m) = set (schedulable (graph m)) \<and>
     distinct (pushlog m) \<and> distinct (worklist m) \<and>
     set (worklist m) \<subseteq> set (pushlog m) \<and>
     (\<forall>u. u \<in> set (pushlog m) \<longleftrightarrow> dmap m u = Some 0) \<and>
     (\<forall>u d. dmap m u = Some d \<longrightarrow>
        (\<Sum>p\<in>pending m. count_list (targets (graph m) p) u) \<le> unat d)"

section \<open>Example inputs\<close>

text \<open>
  Node 1 (Conv) produces value 11. Node 2 (Relu) reads value 10, which no node
  produces, and value 11.
\<close>

definition g_dangling :: Graph where
  "g_dangling =
     \<lparr>nodes = [1, 2],
      nodeAt = (\<lambda>_. \<lparr>kind = kReturn, inputs = [], outputs = []\<rparr>)
                 (1 := \<lparr>kind = Symbol ''Conv'', inputs = [], outputs = [11]\<rparr>,
                  2 := \<lparr>kind = Symbol ''Relu'', inputs = [10, 11], outputs = [12]\<rparr>),
      valueAt = (\<lambda>_. \<lparr>node = None, uses = [], uniqueName = []\<rparr>)
                 (10 := \<lparr>node = None, uses = [(2, 0)], uniqueName = ''x''\<rparr>,
                  11 := \<lparr>node = Some 1, uses = [(2, 1)], uniqueName = ''y''\<rparr>,
                  12 := \<lparr>node = Some 2, uses = [], uniqueName = ''z''\<rparr>),
      g_inputs = [], g_outputs = [], fresh_node = 3, fresh_value = 13\<rparr>"

text \<open>
  A graph without inputs: node 1 (Conv) produces value 10, the only output of the
  graph, which the return sentinel (node 0) uses.
\<close>

definition g_raw :: Graph where
  "g_raw =
     \<lparr>nodes = [1],
      nodeAt = (\<lambda>_. \<lparr>kind = kReturn, inputs = [10], outputs = []\<rparr>)
                 (1 := \<lparr>kind = Symbol ''Conv'', inputs = [], outputs = [10]\<rparr>),
      valueAt = (\<lambda>_. \<lparr>node = None, uses = [], uniqueName = []\<rparr>)
                 (10 := \<lparr>node = Some 1, uses = [(0, 0)], uniqueName = ''y''\<rparr>),
      g_inputs = [], g_outputs = [10], fresh_node = 2, fresh_value = 11\<rparr>"

text \<open>
  Two independent nodes 1 and 2, in this order, on a backend with a single resource
  class 0 of one unit and a cost of 4 cycles for every node.
\<close>

definition g_two :: Graph where
  "g_two =
     \<lparr>nodes = [1, 2],
      nodeAt = (\<lambda>_. \<lparr>kind = kReturn, inputs = [], outputs = []\<rparr>)
                 (1 := \<lparr>kind = Symbol ''Conv'', inputs = [], outputs = [10]\<rparr>,
                  2 := \<lparr>kind = Symbol ''Conv'', inputs = [], outputs = [11]\<rparr>),
      valueAt = (\<lambda>_. \<lparr>node = None, uses = [], uniqueName = []\<rparr>)
                 (10 := \<lparr>node = Some 1, uses = [], uniqueName = ''a''\<rparr>,
                  11 := \<lparr>node = Some 2, uses = [], uniqueName = ''b''\<rparr>),
      g_inputs = [], g_outputs = [], fresh_node = 3, fresh_value = 12\<rparr>"

definition B_one :: backend where
  "B_one = \<lparr>queryExeResType = (\<lambda>_. 0), getOperatorCost = (\<lambda>_. 4), numUnits = (\<lambda>_. 1)\<rparr>"

definition m_two :: machine where
  "m_two = \<lparr>graph = g_two, m_ExeResUsers = [], dmap = Map.empty, worklist = [], pushlog = [],
            outs = [], errs = []\<rparr>"

text \<open>The state of that run when the loop is entered, and after its first round.\<close>

definition m_seeded :: machine where
  "m_seeded = m_two\<lparr>dmap := [1 \<mapsto> 0, 2 \<mapsto> 0], worklist := [1, 2], pushlog := [1, 2]\<rparr>"

definition m_stuck :: machine where
  "m_stuck =
     m_seeded\<lparr>worklist := [2], m_ExeResUsers := [(0, [\<lparr>user = 1, remainCycles = 4\<rparr>])]\<rparr>"

text \<open>A backend with two resource classes of one unit each; odd nodes use class 1.\<close>

definition B_mod :: backend where
  "B_mod = \<lparr>queryExeResType = (\<lambda>n. n mod 2), getOperatorCost = (\<lambda>_. 4), numUnits = (\<lambda>_. 1)\<rparr>"

text \<open>
  A graph with one input and one output: value 9 is the input, bound to the node 5
  that stands for the graph's parameters and is not in the node list; node 1 (Conv)
  reads it and produces value 10; node 2 (Relu) reads value 10 and produces value 11,
  the output, which the return sentinel (node 0) uses.
\<close>

definition g_io :: Graph where
  "g_io =
     \<lparr>nodes = [1, 2],
      nodeAt = (\<lambda>_. \<lparr>kind = kReturn, inputs = [11], outputs = []\<rparr>)
                 (1 := \<lparr>kind = Symbol ''Conv'', inputs = [9], outputs = [10]\<rparr>,
                  2 := \<lparr>kind = Symbol ''Relu'', inputs = [10], outputs = [11]\<rparr>),
      valueAt = (\<lambda>_. \<lparr>node = None, uses = [], uniqueName = []\<rparr>)
                 (9 := \<lparr>node = Some 5, uses = [(1, 0)], uniqueName = ''x''\<rparr>,
                  10 := \<lparr>node = Some 1, uses = [(2, 0)], uniqueName = ''y''\<rparr>,
                  11 := \<lparr>node = Some 2, uses = [(0, 0)], uniqueName = ''z''\<rparr>),
      g_inputs = [9], g_outputs = [11], fresh_node = 6, fresh_value = 12\<rparr>"

definition m_io :: machine where
  "m_io = \<lparr>graph = g_io, m_ExeResUsers = [], dmap = Map.empty, worklist = [],
              pushlog = [], outs = [], errs = []\<rparr>"

text \<open>A ledger in which the only unit of resource 1 is taken.\<close>

definition L_full :: ledger where
  "L_full = [(1, [\<lparr>user = 7, remainCycles = 2\<rparr>])]"

section \<open>Proof setup\<close>

text \<open>The equations of the index loops recur on themselves; they are unfolded on demand.\<close>

declare subtract_loop.simps [simp del]
declare release_loop.simps [simp del]
declare pick_loop.simps [simp del]

section \<open>The pass without a backend\<close>

text \<open>
  Claim C7. With a null \<^verbatim>\<open>m_DLATB\<close> the pass returns \<^verbatim>\<open>kPassFailure\<close> at once, for
  any bound on the rounds. Its only effect is the message on \<^verbatim>\<open>errs()\<close>: the graph,
  the ledger, the degree map, the worklist and \<^verbatim>\<open>outs()\<close> are those of the call.
\<close>

theorem runOnModule_no_backend:
  "\<exists>m'. runOnModule fuel None m = Returned kPassFailure m'
        \<and> graph m' = graph m
        \<and> m_ExeResUsers m' = m_ExeResUsers m
        \<and> dmap m' = dmap m
        \<and> worklist m' = worklist m
        \<and> pushlog m' = pushlog m
        \<and> outs m' = outs m
        \<and> errs m' = errs m @ [no_backend_message]"
  by (simp add: runOnModule_def)

section \<open>updateResList\<close>

lemma min_ledger_no_users:
  "list_all (\<lambda>it. snd it = []) L \<Longrightarrow> foldl (\<lambda>m it. min_users (snd it) m) a L = a"
  by (induction L arbitrary: a) (auto simp: min_users_def)

lemma update_users_Nil: "update_users c [] = Some []"
  by (simp add: update_users_def subtract_loop.simps release_loop.simps)

lemma update_entries_no_users:
  "list_all (\<lambda>it. snd it = []) L \<Longrightarrow> update_entries c L = Some L"
  by (induction L) (auto simp: update_users_Nil)

text \<open>
  Claim C10. On a ledger in which every user list is empty, \<^verbatim>\<open>updateResList\<close> does
  not fault, returns the ledger as it was, and returns \<^verbatim>\<open>UINT_MAX\<close>, which is
  \<open>2^32 - 1\<close>.
\<close>

theorem updateResList_no_users:
  "list_all (\<lambda>it. snd it = []) L \<Longrightarrow>
     updateResList L = Some (L, UINT_MAX) \<and> unat UINT_MAX = 2 ^ 32 - 1"
  by (simp add: updateResList_def min_ledger_def min_ledger_no_users
        update_entries_no_users UINT_MAX_def)

theorem updateResList_no_users_witness:
  "list_all (\<lambda>it. snd it = []) [(0::rid, []), (1, [])]
   \<and> updateResList [(0, []), (1, [])] = Some ([(0, []), (1, [])], UINT_MAX)
   \<and> unat UINT_MAX = 2 ^ 32 - 1"
  using updateResList_no_users [of "[(0, []), (1, [])]"] by simp

text \<open>
  Claim C3, at a ledger with one resource used by node 1 with 5 cycles left and node 2
  with 3 cycles left. The minimum 3 is found, subtracted and returned. Node 2 reaches
  zero at index 1, so \<open>rmList\<close> is \<open>[1]\<close>; the release loop then erases index
  \<open>rmList.size() - 1 = 0\<close>: node 1, with 2 cycles left, is released and node 2, with
  none left, stays.
\<close>

theorem updateResList_erases_loop_index:
  "updateResList [(0, [\<lparr>user = 1, remainCycles = 5\<rparr>, \<lparr>user = 2, remainCycles = 3\<rparr>])]
     = Some ([(0, [\<lparr>user = 2, remainCycles = 0\<rparr>])], 3)"
  by (simp add: updateResList_def min_ledger_def min_users_def UINT_MAX_def update_users_def
        subtract_loop.simps release_loop.simps erase_def)

section \<open>greedyPickNextNodes\<close>

lemma map_of_ensure_entry: "map_of (ensure_entry r L) r \<noteq> None"
  by (simp add: ensure_entry_def update_conv')

lemma isExeResAvailable_ensure:
  "isExeResAvailable B (ensure_entry r L) r = Some (available B (ensure_entry r L) r)"
  using map_of_ensure_entry [of r L]
  by (auto simp: isExeResAvailable_def available_def split: option.splits)

text \<open>The scan from index \<open>i\<close> on is the admission pass over the candidates from \<open>i\<close> on.\<close>

lemma pick_loop_greedy:
  "i \<le> length pCands \<Longrightarrow>
   pick_loop B pCands i (L, nxt, rm) =
     (case greedy_admit B (drop i pCands) L of
        (a, q, L') \<Rightarrow> Some (L', nxt @ a, rm @ greedy_idx B (drop i pCands) i L))"
proof (induction "length pCands - i" arbitrary: i L nxt rm)
  case 0
  then show ?case by (simp add: pick_loop.simps)
next
  case (Suc k)
  then have lt: "i < length pCands" by simp
  then have dr: "drop i pCands = pCands ! i # drop (Suc i) pCands"
    by (simp add: Cons_nth_drop_Suc)
  have k: "k = length pCands - Suc i" using Suc.hyps(2) by simp
  have le: "Suc i \<le> length pCands" using lt by simp
  note IH = Suc.hyps(1) [OF k le]
  show ?case
    apply (subst pick_loop.simps)
    apply (simp add: lt dr Let_def IH isExeResAvailable_ensure ensure_entry_def [symmetric]
             split: prod.splits)
    done
qed

lemma erase_all_append:
  "erase_all xs (as @ bs) =
     (case erase_all xs as of None \<Rightarrow> None | Some ys \<Rightarrow> erase_all ys bs)"
  by (induction as arbitrary: xs) (auto split: option.splits)

lemma erase_middle: "erase (pre @ n # qs) (length pre) = Some (pre @ qs)"
  by (simp add: erase_def)

text \<open>Erasing the recorded indices from the last to the first leaves the queued candidates.\<close>

lemma erase_all_greedy:
  "erase_all (pre @ ns) (rev (greedy_idx B ns (length pre) L))
     = Some (pre @ fst (snd (greedy_admit B ns L)))"
proof (induction ns arbitrary: pre L)
  case Nil
  then show ?case by simp
next
  case (Cons n ns)
  have IH: "\<And>L. erase_all (pre @ n # ns) (rev (greedy_idx B ns (Suc (length pre)) L))
     = Some (pre @ n # fst (snd (greedy_admit B ns L)))"
    using Cons.IH [of "pre @ [n]"] by simp
  show ?case
    by (simp add: Let_def erase_all_append IH erase_middle split: prod.splits)
qed

lemma greedyPick_eq: "greedyPickNextNodes B pCands L = Some (greedy_admit B pCands L)"
  using erase_all_greedy [where pre = "[]" and ns = pCands and B = B and L = L]
  by (simp add: greedyPickNextNodes_def pick_loop_greedy split: prod.splits)

lemma greedy_admit_append:
  "greedy_admit B (xs @ ys) L =
     (case greedy_admit B xs L of
        (a1, q1, L1) \<Rightarrow>
          (case greedy_admit B ys L1 of (a2, q2, L2) \<Rightarrow> (a1 @ a2, q1 @ q2, L2)))"
  by (induction xs arbitrary: L) (auto simp: Let_def split: prod.splits)

text \<open>
  Claim C6. \<^verbatim>\<open>greedyPickNextNodes\<close>, with its scan by index and its erasure of the
  recorded indices, never faults and computes the single pass \<open>greedy_admit\<close>: from left
  to right, each candidate is admitted, in order, iff its resource is available in the
  ledger as the candidates before it have left it, and the others stay queued in their
  order. In terms of the function itself: on no candidates it admits nothing; on the
  candidates \<open>pre\<close> followed by \<open>n\<close> it does what it does on \<open>pre\<close> and then appends \<open>n\<close> to
  the admitted nodes if \<^verbatim>\<open>isExeResAvailable\<close> is true at that moment, and to the queued
  ones if not.
\<close>

theorem greedyPickNextNodes_single_pass:
  "greedyPickNextNodes B pCands L = Some (greedy_admit B pCands L)
   \<and> greedyPickNextNodes B [] L = Some ([], [], L)
   \<and> greedyPickNextNodes B (pre @ [n]) L =
       (case greedyPickNextNodes B pre L of
          None \<Rightarrow> None
        | Some (a, q, L1) \<Rightarrow>
            (let r = queryExeResType B n;
                 L2 = (if map_of L1 r = None then AList.update r [] L1 else L1)
             in if isExeResAvailable B L2 r = Some True
                then Some (a @ [n], q, addExeResUser B L2 r n)
                else Some (a, q @ [n], L2)))"
  by (auto simp: greedyPick_eq greedy_admit_append Let_def isExeResAvailable_ensure
        ensure_entry_def [symmetric] split: prod.splits)

section \<open>BuildDegreeMap\<close>

lemma count_degree_eq:
  "count_degree g n vs (d, out) =
     (d - of_nat (length (filter (\<lambda>v. node (valueAt g v) = None) vs)),
      out @ map (\<lambda>v. warning (kind (nodeAt g n)) (uniqueName (valueAt g v)))
                (filter (\<lambda>v. node (valueAt g v) = None) vs))"
  by (induction vs arbitrary: d out) auto

lemma count_degree_inputs:
  "count_degree g n (inputs (nodeAt g n)) (of_nat (length (inputs (nodeAt g n))), out)
     = (degree_of g n, out @ warnings_of g n)"
proof -
  have "length (dangling g n) \<le> length (inputs (nodeAt g n))"
    by (simp add: dangling_def)
  then have "(of_nat (length (inputs (nodeAt g n))) :: u32) - of_nat (length (dangling g n))
      = of_nat (length (inputs (nodeAt g n)) - length (dangling g n))"
    by simp
  then show ?thesis
    by (simp add: count_degree_eq degree_of_def warnings_of_def dangling_def)
qed

lemma build_loop_eq:
  "build_loop g ns (dm, out) =
     (\<lambda>n. if n \<in> set ns \<and> kind (nodeAt g n) \<noteq> kUndefined then Some (degree_of g n) else dm n,
      out @ concat (map (warnings_of g) (filter (\<lambda>n. kind (nodeAt g n) \<noteq> kUndefined) ns)))"
proof (induction ns arbitrary: dm out)
  case Nil
  then show ?case by simp
next
  case (Cons n ns)
  show ?case
    by (auto simp: Cons.IH count_degree_inputs)
qed

lemma BuildDegreeMap_eq:
  "BuildDegreeMap g =
     (\<lambda>n. if n \<in> set (nodes g) \<and> kind (nodeAt g n) \<noteq> kUndefined
           then Some (degree_of g n) else None,
      concat (map (warnings_of g) (schedulable g)))"
  by (simp add: BuildDegreeMap_def build_loop_eq schedulable_def)

text \<open>
  Claim C5. In the map that \<^verbatim>\<open>BuildDegreeMap\<close> returns, every node of the graph that is
  not of the undefined kind has the number of its inputs minus the number of its
  inputs without producer. The text written is one warning per such input, node by
  node in graph order; it is written, and the map is still returned. A node with the
  two inputs \<open>a\<close> without producer and \<open>b\<close> with one has degree 1 and one warning.
\<close>

theorem BuildDegreeMap_degree:
  "BuildDegreeMap g = (dm, w) \<Longrightarrow>
     (\<forall>n \<in> set (nodes g). kind (nodeAt g n) \<noteq> kUndefined \<longrightarrow>
        dm n = Some (of_nat (length (inputs (nodeAt g n)) - length (dangling g n)))
        \<and> length (warnings_of g n) = length (dangling g n)
        \<and> (\<forall>a b. inputs (nodeAt g n) = [a, b] \<and> node (valueAt g a) = None
                  \<and> node (valueAt g b) \<noteq> None \<longrightarrow>
             dm n = Some 1
             \<and> warnings_of g n = [warning (kind (nodeAt g n)) (uniqueName (valueAt g a))]))
     \<and> w = concat (map (warnings_of g) (schedulable g))"
  by (auto simp: BuildDegreeMap_eq degree_of_def warnings_of_def dangling_def)

theorem BuildDegreeMap_degree_witness:
  "\<exists>dm w. BuildDegreeMap g_dangling = (dm, w)
     \<and> 2 \<in> set (nodes g_dangling)
     \<and> kind (nodeAt g_dangling 2) \<noteq> kUndefined
     \<and> inputs (nodeAt g_dangling 2) = [10, 11]
     \<and> node (valueAt g_dangling 10) = None
     \<and> node (valueAt g_dangling 11) \<noteq> None
     \<and> dm 2 = Some 1
     \<and> w = [''Warning! Relu use a value = x, which doen't bind to a node'']"
proof -
  obtain dm w where e: "BuildDegreeMap g_dangling = (dm, w)"
    by (cases "BuildDegreeMap g_dangling") auto
  have n: "2 \<in> set (nodes g_dangling)" "kind (nodeAt g_dangling 2) \<noteq> kUndefined"
    "inputs (nodeAt g_dangling 2) = [10, 11]" "node (valueAt g_dangling 10) = None"
    "node (valueAt g_dangling 11) \<noteq> None"
    by (simp_all add: g_dangling_def kUndefined_def)
  have s: "schedulable g_dangling = [1, 2]"
    by (simp add: schedulable_def g_dangling_def kUndefined_def)
  have w1: "warnings_of g_dangling 1 = []"
    by (simp add: warnings_of_def dangling_def g_dangling_def)
  have w2: "warning (kind (nodeAt g_dangling 2)) (uniqueName (valueAt g_dangling 10))
      = ''Warning! Relu use a value = x, which doen't bind to a node''"
    by (simp add: warning_def g_dangling_def)
  note T = BuildDegreeMap_degree [OF e]
  from T have W: "w = concat (map (warnings_of g_dangling) (schedulable g_dangling))"
    by (rule conjunct2)
  from T n(1) n(2)
  have D: "\<forall>a b. inputs (nodeAt g_dangling 2) = [a, b] \<and> node (valueAt g_dangling a) = None
                  \<and> node (valueAt g_dangling b) \<noteq> None \<longrightarrow>
             dm 2 = Some 1
             \<and> warnings_of g_dangling 2
                 = [warning (kind (nodeAt g_dangling 2)) (uniqueName (valueAt g_dangling a))]"
    by blast
  from D n(3) n(4) n(5)
  have d2: "dm 2 = Some 1"
    and w3: "warnings_of g_dangling 2
                 = [warning (kind (nodeAt g_dangling 2)) (uniqueName (valueAt g_dangling 10))]"
    by blast+
  have "w = [''Warning! Relu use a value = x, which doen't bind to a node'']"
    by (simp only: W s w1 w2 w3 list.map concat.simps append_Nil append_Nil2)
  with e n d2 show ?thesis by blast
qed

section \<open>Boundary normalisation at a graph that has its Store node\<close>

lemmas graph_ops = normalize_boundary_def InsertLoadStoreNode_def
  HasInsertedLoadStoreNode_def create_def addUse_def copyMetadata_def insertBefore_def
  position_def isBefore_def replaceAllUsesWith_def rebindUse_def

text \<open>
  Claim C2, at the graph \<open>g_raw\<close>. The first normalisation appends the Store node 2, so
  that the last node of its result \<open>g1\<close> is a Store marker. Normalising \<open>g1\<close> does not
  skip \<^verbatim>\<open>InsertLoadStoreNode\<close>: it appends one more Store node, and the node list
  grows from two nodes to three.
\<close>

theorem normalize_boundary_inserts_again:
  "\<exists>g1 g2. normalize_boundary g_raw = Some g1
      \<and> HasInsertedLoadStoreNode g1
      \<and> normalize_boundary g1 = Some g2
      \<and> nodes g1 = [1, 2]
      \<and> nodes g2 = [1, 2, 3]
      \<and> kind (nodeAt g2 3) = Symbol ''Store''"
  by (simp add: g_raw_def graph_ops Let_def)

section \<open>A run that does not leave the loop\<close>

lemma sched_loop_stuck:
  "sched_round B m = Some m \<Longrightarrow> worklist m \<noteq> [] \<Longrightarrow> sched_loop n B m = Running m"
  by (induction n) auto

lemma round_seeded: "sched_round B_one m_seeded = Some m_stuck"
  by (simp add: sched_round_def greedyPick_eq m_seeded_def m_stuck_def m_two_def g_two_def
        B_one_def ensure_entry_def available_def addExeResUser_def Let_def)

lemma round_stuck: "sched_round B_one m_stuck = Some m_stuck"
  by (simp add: sched_round_def greedyPick_eq m_seeded_def m_stuck_def m_two_def g_two_def
        B_one_def ensure_entry_def available_def addExeResUser_def Let_def)

lemma normalize_two: "normalize_boundary g_two = Some g_two"
  by (simp add: g_two_def graph_ops)

lemma seed_two: "schedule fuel B_one m_two = sched_loop fuel B_one m_seeded"
  by (simp add: schedule_def BuildDegreeMap_def m_two_def m_seeded_def g_two_def
        kUndefined_def kReturn_def push_back_worklist_def)

lemma run_two: "runOnModule fuel (Some B_one) m_two = sched_loop fuel B_one m_seeded"
  using seed_two [of fuel]
  by (simp add: runOnModule_def clear_def normalize_two m_two_def)

lemma run_two_Suc: "runOnModule (Suc k) (Some B_one) m_two = Running m_stuck"
proof -
  have w: "worklist m_stuck \<noteq> []" by (simp add: m_stuck_def)
  have "worklist m_seeded \<noteq> []" by (simp add: m_seeded_def)
  then have "sched_loop (Suc k) B_one m_seeded = sched_loop k B_one m_stuck"
    by (simp add: round_seeded)
  also have "\<dots> = Running m_stuck"
    by (rule sched_loop_stuck [OF round_stuck w])
  finally show ?thesis by (simp add: run_two)
qed

lemma run_two_0: "runOnModule 0 (Some B_one) m_two = Running m_seeded"
  by (simp add: run_two m_seeded_def)

text \<open>
  Claim C1, at the run \<open>m_two\<close> on the backend \<open>B_one\<close>: nodes 1 and 2 are both ready and
  need the only unit of resource 0. The loop is entered with the worklist \<open>[1, 2]\<close>. The
  first round admits node 1 and leaves node 2 queued. No round calls
  \<^verbatim>\<open>updateResList\<close>: after any number of rounds node 1 still holds the unit with its 4
  cycles, and node 2 is still queued.
\<close>

theorem runOnModule_never_advances:
  "runOnModule 0 (Some B_one) m_two = Running m_seeded
   \<and> worklist m_seeded = [1, 2]
   \<and> sched_round B_one m_seeded = Some m_stuck
   \<and> (\<forall>k. \<exists>m. runOnModule (Suc k) (Some B_one) m_two = Running m
            \<and> worklist m = [2]
            \<and> m_ExeResUsers m = [(0, [\<lparr>user = 1, remainCycles = 4\<rparr>])])"
  by (simp add: round_seeded run_two_Suc run_two_0) (simp add: m_seeded_def m_stuck_def)

section \<open>The capacity invariant\<close>

lemma list_all_update:
  "list_all P L \<Longrightarrow> P (k, v) \<Longrightarrow> list_all P (AList.update k v L)"
  by (induction L) auto

lemma cap_ok_ensure: "cap_ok B L \<Longrightarrow> cap_ok B (ensure_entry r L)"
  by (simp add: cap_ok_def ensure_entry_def list_all_update)

lemma cap_ok_add:
  "cap_ok B L \<Longrightarrow> available B L r \<Longrightarrow> cap_ok B (addExeResUser B L r n)"
  by (simp add: cap_ok_def addExeResUser_def available_def list_all_update Let_def)

lemma greedy_admit_cap:
  "cap_ok B L \<Longrightarrow> cap_ok B (snd (snd (greedy_admit B ns L)))"
proof (induction ns arbitrary: L)
  case Nil
  then show ?case by simp
next
  case (Cons n ns)
  let ?r = "queryExeResType B n"
  have e: "cap_ok B (ensure_entry ?r L)" using Cons.prems by (rule cap_ok_ensure)
  show ?case
  proof (cases "available B (ensure_entry ?r L) ?r")
    case True
    with e have "cap_ok B (addExeResUser B (ensure_entry ?r L) ?r n)" by (simp add: cap_ok_add)
    from Cons.IH [OF this] True show ?thesis by (auto simp: Let_def split: prod.splits)
  next
    case False
    from Cons.IH [OF e] False show ?thesis by (auto simp: Let_def split: prod.splits)
  qed
qed

lemma map_of_ensure_other: "map_of L r = Some us \<Longrightarrow> map_of (ensure_entry r' L) r = Some us"
  by (auto simp: ensure_entry_def update_conv')

lemma greedy_admit_full:
  "map_of L r = Some us \<Longrightarrow> \<not> length us < numUnits B r \<Longrightarrow>
   \<forall>n \<in> set (fst (greedy_admit B ns L)). queryExeResType B n \<noteq> r"
proof (induction ns arbitrary: L)
  case Nil
  then show ?case by simp
next
  case (Cons n ns)
  let ?r = "queryExeResType B n"
  have e: "map_of (ensure_entry ?r L) r = Some us" using Cons.prems(1) by (rule map_of_ensure_other)
  show ?case
  proof (cases "available B (ensure_entry ?r L) ?r")
    case True
    with e Cons.prems(2) have ne: "?r \<noteq> r" by (auto simp: available_def)
    then have "map_of (addExeResUser B (ensure_entry ?r L) ?r n) r = Some us"
      using e by (simp add: addExeResUser_def update_conv' Let_def)
    from Cons.IH [OF this Cons.prems(2)] True ne show ?thesis
      by (simp add: Let_def split: prod.splits)
  next
    case False
    from Cons.IH [OF e Cons.prems(2)] False show ?thesis by (simp add: Let_def split: prod.splits)
  qed
qed

lemma push_ledger: "m_ExeResUsers (push_back_worklist n m) = m_ExeResUsers m"
  by (simp add: push_back_worklist_def)

lemma visit_uses_ledger: "visit_uses us m = Some m' \<Longrightarrow> m_ExeResUsers m' = m_ExeResUsers m"
  by (induction us arbitrary: m) (auto simp: push_ledger Let_def split: if_splits option.splits)

lemma visit_outputs_ledger: "visit_outputs vs m = Some m' \<Longrightarrow> m_ExeResUsers m' = m_ExeResUsers m"
  by (induction vs arbitrary: m) (auto split: option.splits dest: visit_uses_ledger)

lemma visit_picked_ledger: "visit_picked ns m = Some m' \<Longrightarrow> m_ExeResUsers m' = m_ExeResUsers m"
  by (induction ns arbitrary: m) (auto split: option.splits dest: visit_outputs_ledger)

lemma sched_round_cap:
  "cap_ok B (m_ExeResUsers m) \<Longrightarrow> sched_round B m = Some m' \<Longrightarrow> cap_ok B (m_ExeResUsers m')"
  using greedy_admit_cap [of B "m_ExeResUsers m" "worklist m"]
  by (auto simp: sched_round_def greedyPick_eq split: prod.splits dest!: visit_picked_ledger)

lemma sched_loop_cap:
  "cap_ok B (m_ExeResUsers m) \<Longrightarrow>
   sched_loop fuel B m = Running m' \<or> sched_loop fuel B m = Returned rt m' \<Longrightarrow>
   cap_ok B (m_ExeResUsers m')"
proof (induction fuel arbitrary: m)
  case 0
  then show ?case by (auto split: if_splits)
next
  case (Suc k)
  show ?case
  proof (cases "worklist m = []")
    case True
    with Suc.prems show ?thesis by auto
  next
    case False
    with Suc.prems obtain m1 where r: "sched_round B m = Some m1"
      by (auto split: option.splits)
    with False Suc.prems(2) have "sched_loop k B m1 = Running m' \<or> sched_loop k B m1 = Returned rt m'"
      by simp
    with Suc.IH [OF sched_round_cap [OF Suc.prems(1) r]] show ?thesis by blast
  qed
qed

lemma seed_ledger: "m_ExeResUsers (seed_worklist ns m) = m_ExeResUsers m"
  by (induction ns arbitrary: m) (auto simp: push_ledger split: option.splits)

lemma schedule_cap:
  "cap_ok B (m_ExeResUsers m) \<Longrightarrow>
   schedule fuel B m = Running m' \<or> schedule fuel B m = Returned rt m' \<Longrightarrow>
   cap_ok B (m_ExeResUsers m')"
  by (auto simp: schedule_def seed_ledger split: prod.splits elim!: sched_loop_cap [rotated])

lemma runOnModule_cap:
  "runOnModule fuel (Some B) m = Running m' \<or> runOnModule fuel (Some B) m = Returned rt m' \<Longrightarrow>
   cap_ok B (m_ExeResUsers m')"
proof -
  assume a: "runOnModule fuel (Some B) m = Running m' \<or> runOnModule fuel (Some B) m = Returned rt m'"
  then obtain g where g: "normalize_boundary (graph (clear m)) = Some g"
    by (auto simp: runOnModule_def split: option.splits)
  have c: "cap_ok B (m_ExeResUsers ((clear m)\<lparr>graph := g\<rparr>))"
    by (simp add: clear_def cap_ok_def)
  from a g have "schedule fuel B ((clear m)\<lparr>graph := g\<rparr>) = Running m'
     \<or> schedule fuel B ((clear m)\<lparr>graph := g\<rparr>) = Returned rt m'"
    by (simp add: runOnModule_def)
  with c show ?thesis by (rule schedule_cap)
qed

text \<open>
  Claim C8. \<^verbatim>\<open>isExeResAvailable\<close> on a tracked resource is true exactly when it has
  fewer users than units. A pass of \<^verbatim>\<open>greedyPickNextNodes\<close> over a ledger within
  capacity leaves it within capacity, and admits no node of a resource for which
  \<^verbatim>\<open>isExeResAvailable\<close> is false. Whatever the number of rounds, the ledger of a run of
  \<^verbatim>\<open>runOnModule\<close> is within capacity, while the loop runs and when the pass returns.
\<close>

theorem capacity_never_exceeded:
  "(map_of L r = Some us \<longrightarrow> isExeResAvailable B L r = Some (length us < numUnits B r))
   \<and> (cap_ok B L \<and> greedyPickNextNodes B c L = Some (nxt, q, L') \<longrightarrow> cap_ok B L')
   \<and> (isExeResAvailable B L r = Some False \<and> greedyPickNextNodes B c L = Some (nxt, q, L')
        \<longrightarrow> (\<forall>n \<in> set nxt. queryExeResType B n \<noteq> r))
   \<and> (runOnModule fuel (Some B) m = Running m' \<or> runOnModule fuel (Some B) m = Returned rt m'
        \<longrightarrow> cap_ok B (m_ExeResUsers m'))"
proof (intro conjI impI)
  assume "map_of L r = Some us"
  then show "isExeResAvailable B L r = Some (length us < numUnits B r)"
    by (simp add: isExeResAvailable_def)
next
  assume "cap_ok B L \<and> greedyPickNextNodes B c L = Some (nxt, q, L')"
  then show "cap_ok B L'"
    using greedy_admit_cap [of B L c] by (simp add: greedyPick_eq)
next
  assume a: "isExeResAvailable B L r = Some False \<and> greedyPickNextNodes B c L = Some (nxt, q, L')"
  then obtain us where "map_of L r = Some us" "\<not> length us < numUnits B r"
    by (auto simp: isExeResAvailable_def split: option.splits)
  from greedy_admit_full [OF this, of c] a
  show "\<forall>n \<in> set nxt. queryExeResType B n \<noteq> r"
    by (simp add: greedyPick_eq)
next
  assume "runOnModule fuel (Some B) m = Running m' \<or> runOnModule fuel (Some B) m = Returned rt m'"
  then show "cap_ok B (m_ExeResUsers m')" by (rule runOnModule_cap)
qed

section \<open>Propagation as a list of decrements\<close>

lemma push_graph: "graph (push_back_worklist n m) = graph m"
  by (simp add: push_back_worklist_def)

lemma dec_all_graph: "dec_all ts m = Some m' \<Longrightarrow> graph m' = graph m"
  by (induction ts arbitrary: m) (auto simp: push_graph Let_def split: option.splits if_splits)

lemma dec_all_append:
  "dec_all (xs @ ys) m = (case dec_all xs m of None \<Rightarrow> None | Some m' \<Rightarrow> dec_all ys m')"
  by (induction xs arbitrary: m) (auto simp: Let_def split: option.splits)

lemma visit_uses_dec:
  "visit_uses us m =
     dec_all (map fst (filter (\<lambda>u. kind (nodeAt (graph m) (fst u)) \<noteq> kReturn) us)) m"
  by (induction us arbitrary: m) (auto simp: push_graph Let_def split: option.splits)

lemma visit_outputs_dec:
  "visit_outputs vs m = dec_all (concat (map (consumers (graph m)) vs)) m"
proof (induction vs arbitrary: m)
  case Nil
  then show ?case by simp
next
  case (Cons v vs)
  show ?case
    by (auto simp: dec_all_append visit_uses_dec consumers_def Cons.IH dec_all_graph
             split: option.splits)
qed

lemma visit_picked_dec:
  "visit_picked ns m = dec_all (concat (map (targets (graph m)) ns)) m"
proof (induction ns arbitrary: m)
  case Nil
  then show ?case by simp
next
  case (Cons n ns)
  show ?case
    by (auto simp: dec_all_append visit_outputs_dec targets_def Cons.IH dec_all_graph
             split: option.splits)
qed

section \<open>One decrement keeps the worklist invariant\<close>

lemma dec_step:
  assumes pre: "dec_pre (t # ts) m" and d: "dmap m t = Some d"
    and m2_def: "m2 = (if d - 1 = 0
                       then push_back_worklist t (m\<lparr>dmap := (dmap m)(t \<mapsto> d - 1)\<rparr>)
                       else m\<lparr>dmap := (dmap m)(t \<mapsto> d - 1)\<rparr>)"
  shows "d \<noteq> 0" and "t \<notin> set (pushlog m)" and "dec_pre ts m2"
proof -
  from pre d have "count_list (t # ts) t \<le> unat d" unfolding dec_pre_def by blast
  then have c: "Suc (count_list ts t) \<le> unat d" by simp
  then show d0: "d \<noteq> 0" by (auto simp: unat_eq_zero)
  from pre d d0 show np: "t \<notin> set (pushlog m)" unfolding dec_pre_def by auto
  from pre have nw: "t \<notin> set (worklist m)" using np unfolding dec_pre_def by auto
  have u1: "unat (d - 1) = unat d - 1" using d0 by (simp add: unat_minus_one)
  have dm2: "dmap m2 = (dmap m)(t \<mapsto> d - 1)"
    by (simp add: m2_def push_back_worklist_def)
  have pl2: "pushlog m2 = (if d - 1 = 0 then pushlog m @ [t] else pushlog m)"
    by (simp add: m2_def push_back_worklist_def)
  have wl2: "worklist m2 = (if d - 1 = 0 then worklist m @ [t] else worklist m)"
    by (simp add: m2_def push_back_worklist_def)
  have a: "set ts \<subseteq> dom (dmap m2)" using pre d unfolding dec_pre_def dm2 by auto
  have b: "\<forall>u e. dmap m2 u = Some e \<longrightarrow> count_list ts u \<le> unat e"
  proof (intro allI impI)
    fix u e assume e: "dmap m2 u = Some e"
    show "count_list ts u \<le> unat e"
    proof (cases "u = t")
      case True
      with e dm2 have "e = d - 1" by simp
      with c u1 True show ?thesis by simp
    next
      case False
      with e dm2 have "dmap m u = Some e" by simp
      with pre have "count_list (t # ts) u \<le> unat e" unfolding dec_pre_def by blast
      with False show ?thesis by simp
    qed
  qed
  have c1: "distinct (pushlog m2)" using pre np unfolding dec_pre_def pl2 by auto
  have c2: "distinct (worklist m2)" using pre nw unfolding dec_pre_def wl2 by auto
  have c3: "set (worklist m2) \<subseteq> set (pushlog m2)" using pre unfolding dec_pre_def pl2 wl2 by auto
  have c4: "\<forall>u. u \<in> set (pushlog m2) \<longleftrightarrow> dmap m2 u = Some 0"
  proof
    fix u
    show "u \<in> set (pushlog m2) \<longleftrightarrow> dmap m2 u = Some 0"
    proof (cases "u = t")
      case True
      then show ?thesis using np by (simp add: pl2 dm2)
    next
      case False
      then have "u \<in> set (pushlog m2) \<longleftrightarrow> u \<in> set (pushlog m)" by (simp add: pl2)
      moreover have "dmap m2 u = dmap m u" using False by (simp add: dm2)
      ultimately show ?thesis using pre unfolding dec_pre_def by simp
    qed
  qed
  from a b c1 c2 c3 c4 show "dec_pre ts m2" unfolding dec_pre_def by blast
qed

lemma dec_all_inv:
  "dec_pre T m \<Longrightarrow> \<exists>m'. dec_all T m = Some m' \<and> dec_post T m m'"
proof (induction T arbitrary: m)
  case Nil
  then show ?case by (auto simp: dec_pre_def dec_post_def)
next
  case (Cons t ts)
  from Cons.prems obtain d where d: "dmap m t = Some d"
    unfolding dec_pre_def by auto
  define m2 where "m2 = (if d - 1 = 0 then push_back_worklist t (m\<lparr>dmap := (dmap m)(t \<mapsto> d - 1)\<rparr>)
                 else m\<lparr>dmap := (dmap m)(t \<mapsto> d - 1)\<rparr>)"
  note st = dec_step [OF Cons.prems d m2_def]
  from Cons.IH [OF st(3)] obtain m' where m': "dec_all ts m2 = Some m'" and post: "dec_post ts m2 m'"
    by blast
  have run: "dec_all (t # ts) m = Some m'"
    using d m' by (simp add: m2_def Let_def)
  have u1: "unat (d - 1) = unat d - 1" "unat d \<noteq> 0" using st(1) by (simp_all add: unat_minus_one unat_eq_zero)
  have dm2: "dmap m2 = (dmap m)(t \<mapsto> d - 1)"
    by (simp add: m2_def push_back_worklist_def)
  have g2: "graph m2 = graph m" "m_ExeResUsers m2 = m_ExeResUsers m"
    by (simp_all add: m2_def push_back_worklist_def)
  have pl2: "\<exists>new. pushlog m2 = pushlog m @ new \<and> worklist m2 = worklist m @ new"
    by (simp add: m2_def push_back_worklist_def)
  have dom2: "dom (dmap m2) = dom (dmap m)" using d by (auto simp: dm2)
  have cnt: "\<forall>u e. dmap m u = Some e \<longrightarrow> (\<exists>d'. dmap m' u = Some d' \<and> unat d' + count_list (t # ts) u = unat e)"
  proof (intro allI impI)
    fix u e assume e: "dmap m u = Some e"
    show "\<exists>d'. dmap m' u = Some d' \<and> unat d' + count_list (t # ts) u = unat e"
    proof (cases "u = t")
      case True
      then have "dmap m2 u = Some (d - 1)" by (simp add: dm2)
      with post obtain d' where "dmap m' u = Some d'" "unat d' + count_list ts u = unat (d - 1)"
        unfolding dec_post_def by blast
      moreover have "e = d" using e d True by simp
      ultimately show ?thesis using True u1 by auto
    next
      case False
      then have "dmap m2 u = Some e" using e by (simp add: dm2)
      with post obtain d' where "dmap m' u = Some d'" "unat d' + count_list ts u = unat e"
        unfolding dec_post_def by blast
      then show ?thesis using False by auto
    qed
  qed
  from post pl2 have app: "\<exists>new. pushlog m' = pushlog m @ new \<and> worklist m' = worklist m @ new"
    unfolding dec_post_def by (metis append.assoc)
  from post g2 dom2 cnt app have "dec_post (t # ts) m m'"
    unfolding dec_post_def by simp
  with run show ?case by blast
qed

section \<open>A node is decremented at most as often as its degree\<close>

lemma count_list_concat:
  "count_list (concat xss) x = sum_list (map (\<lambda>xs. count_list xs x) xss)"
  by (induction xss) auto

lemma length_filter_disj:
  "(\<And>x. x \<in> set xs \<Longrightarrow> \<not> (P x \<and> Q x)) \<Longrightarrow>
   length (filter P xs) + length (filter Q xs) = length (filter (\<lambda>x. P x \<or> Q x) xs)"
  by (induction xs) auto

lemma sum_count_distinct:
  "distinct vs \<Longrightarrow> sum_list (map (count_list xs) vs) = length (filter (\<lambda>x. x \<in> set vs) xs)"
proof (induction vs)
  case Nil
  then show ?case by simp
next
  case (Cons v vs)
  have "count_list xs v + length (filter (\<lambda>x. x \<in> set vs) xs)
      = length (filter (\<lambda>x. x = v) xs) + length (filter (\<lambda>x. x \<in> set vs) xs)"
    by (simp add: count_list_eq_length_filter) (metis eq_commute)
  also have "\<dots> = length (filter (\<lambda>x. x = v \<or> x \<in> set vs) xs)"
    using Cons.prems by (intro length_filter_disj) auto
  finally show ?case using Cons by simp
qed

lemma length_filter_mono:
  "(\<And>x. x \<in> set xs \<Longrightarrow> P x \<Longrightarrow> Q x) \<Longrightarrow> length (filter P xs) \<le> length (filter Q xs)"
  by (induction xs) auto

lemma sum_producers_le:
  "finite S \<Longrightarrow>
   (\<Sum>p\<in>S. length (filter (\<lambda>x. f x = Some p) xs)) \<le> length (filter (\<lambda>x. f x \<noteq> None) xs)"
proof (induction xs)
  case Nil
  then show ?case by simp
next
  case (Cons x xs)
  have "(\<Sum>p\<in>S. length (filter (\<lambda>x. f x = Some p) (x # xs)))
      = (\<Sum>p\<in>S. (if f x = Some p then 1 else 0) + length (filter (\<lambda>x. f x = Some p) xs))"
    by (intro sum.cong) auto
  also have "\<dots> = (\<Sum>p\<in>S. if f x = Some p then 1 else 0)
                  + (\<Sum>p\<in>S. length (filter (\<lambda>x. f x = Some p) xs))"
    by (simp add: sum.distrib)
  also have "(\<Sum>p\<in>S. if f x = Some p then 1 else (0::nat)) \<le> (if f x \<noteq> None then 1 else 0)"
  proof (cases "f x")
    case None
    then show ?thesis by simp
  next
    case (Some q)
    then have "(\<Sum>p\<in>S. if f x = Some p then 1 else (0::nat)) = (\<Sum>p\<in>S. if q = p then 1 else 0)"
      by simp
    also have "\<dots> = (if q \<in> S then 1 else 0)" using Cons.prems by (simp add: sum.delta')
    finally show ?thesis using Some by simp
  qed
  finally show ?case using Cons.IH [OF Cons.prems] by (auto split: if_splits)
qed

lemma targets_le_slots:
  assumes wf: "wf_graph g" and p: "p \<in> set (nodes g)"
  shows "count_list (targets g p) u
           \<le> length (filter (\<lambda>x. node (valueAt g x) = Some p) (inputs (nodeAt g u)))"
proof -
  let ?outs = "outputs (nodeAt g p)"
  from wf p have dist: "distinct ?outs"
    and prod: "\<And>v. v \<in> set ?outs \<Longrightarrow> node (valueAt g v) = Some p"
    and cnt: "\<And>v. v \<in> set ?outs \<Longrightarrow> u \<in> set (consumers g v) \<Longrightarrow>
               count_list (consumers g v) u = count_list (inputs (nodeAt g u)) v"
    unfolding wf_graph_def by blast+
  have "count_list (targets g p) u = sum_list (map (\<lambda>v. count_list (consumers g v) u) ?outs)"
    by (simp add: targets_def count_list_concat comp_def)
  also have "\<dots> \<le> sum_list (map (count_list (inputs (nodeAt g u))) ?outs)"
  proof (rule sum_list_mono)
    fix v assume v: "v \<in> set ?outs"
    show "count_list (consumers g v) u \<le> count_list (inputs (nodeAt g u)) v"
    proof (cases "u \<in> set (consumers g v)")
      case True
      with cnt [OF v] show ?thesis by simp
    next
      case False
      then show ?thesis by (simp add: count_list_0_iff)
    qed
  qed
  also have "\<dots> = length (filter (\<lambda>x. x \<in> set ?outs) (inputs (nodeAt g u)))"
    using dist by (rule sum_count_distinct)
  also have "\<dots> \<le> length (filter (\<lambda>x. node (valueAt g x) = Some p) (inputs (nodeAt g u)))"
    by (rule length_filter_mono) (simp add: prod)
  finally show ?thesis .
qed

lemma unat_degree_of:
  assumes "length (inputs (nodeAt g u)) < 2 ^ 32"
  shows "unat (degree_of g u)
           = length (filter (\<lambda>x. node (valueAt g x) \<noteq> None) (inputs (nodeAt g u)))"
proof -
  let ?xs = "inputs (nodeAt g u)"
  have "length (dangling g u) + length (filter (\<lambda>x. node (valueAt g x) \<noteq> None) ?xs) = length ?xs"
    unfolding dangling_def by (rule sum_length_filter_compl)
  then have e: "length ?xs - length (dangling g u) = length (filter (\<lambda>x. node (valueAt g x) \<noteq> None) ?xs)"
    by simp
  have "length ?xs - length (dangling g u) < 2 ^ 32" using assms by simp
  then have "unat (of_nat (length ?xs - length (dangling g u)) :: u32) = length ?xs - length (dangling g u)"
    by (simp add: unat_of_nat)
  then show ?thesis by (simp add: degree_of_def e)
qed

lemma total_decrements_le_degree:
  assumes wf: "wf_graph g" and u: "u \<in> set (nodes g)"
  shows "(\<Sum>p\<in>set (nodes g). count_list (targets g p) u) \<le> unat (degree_of g u)"
proof -
  have "(\<Sum>p\<in>set (nodes g). count_list (targets g p) u)
      \<le> (\<Sum>p\<in>set (nodes g). length (filter (\<lambda>x. node (valueAt g x) = Some p) (inputs (nodeAt g u))))"
    by (rule sum_mono) (rule targets_le_slots [OF wf])
  also have "\<dots> \<le> length (filter (\<lambda>x. node (valueAt g x) \<noteq> None) (inputs (nodeAt g u)))"
    by (rule sum_producers_le) simp
  also have "\<dots> = unat (degree_of g u)"
    using wf u by (simp add: unat_degree_of wf_graph_def)
  finally show ?thesis .
qed

section \<open>The invariant of the scheduling loop\<close>

lemma greedy_admit_partition:
  "greedy_admit B w L = (a, q, L') \<Longrightarrow>
     set a \<union> set q = set w \<and>
     (distinct w \<longrightarrow> distinct a \<and> distinct q \<and> set a \<inter> set q = {})"
proof (induction w arbitrary: L a q L')
  case Nil
  then show ?case by simp
next
  case (Cons n w)
  let ?r = "queryExeResType B n"
  show ?case
  proof (cases "available B (ensure_entry ?r L) ?r")
    case True
    obtain a1 q1 L1 where r: "greedy_admit B w (addExeResUser B (ensure_entry ?r L) ?r n) = (a1, q1, L1)"
      by (metis prod_cases3)
    with Cons.prems True have e: "a = n # a1" "q = q1" by (simp_all add: Let_def)
    from Cons.IH [OF r] show ?thesis unfolding e by auto
  next
    case False
    obtain a1 q1 L1 where r: "greedy_admit B w (ensure_entry ?r L) = (a1, q1, L1)"
      by (metis prod_cases3)
    with Cons.prems False have e: "a = a1" "q = n # q1" by (simp_all add: Let_def)
    from Cons.IH [OF r] show ?thesis unfolding e by auto
  qed
qed

lemma pushed_in_nodes:
  assumes "sched_inv m" and "p \<in> set (pushlog m)"
  shows "p \<in> set (nodes (graph m))"
proof -
  from assms have "dmap m p = Some 0" unfolding sched_inv_def by blast
  then have "p \<in> dom (dmap m)" by blast
  with assms(1) have "p \<in> set (schedulable (graph m))" unfolding sched_inv_def by simp
  then show ?thesis by (simp add: schedulable_def)
qed

lemma sched_round_inv:
  assumes inv: "sched_inv m"
  shows "\<exists>m'. sched_round B m = Some m' \<and> sched_inv m' \<and> graph m' = graph m
            \<and> (\<exists>new. pushlog m' = pushlog m @ new)"
proof -
  let ?g = "graph m"
  let ?f = "\<lambda>u p. count_list (targets ?g p) u"
  obtain a q L' where ga: "greedy_admit B (worklist m) (m_ExeResUsers m) = (a, q, L')"
    by (metis prod_cases3)
  define ma where "ma = m\<lparr>worklist := q, m_ExeResUsers := L'\<rparr>"
  define T where "T = concat (map (targets ?g) a)"
  from inv have wf: "wf_graph ?g" and dm: "dom (dmap m) = set (schedulable ?g)"
    and dp: "distinct (pushlog m)" and dw: "distinct (worklist m)"
    and wp: "set (worklist m) \<subseteq> set (pushlog m)"
    and iff: "\<And>u. u \<in> set (pushlog m) \<longleftrightarrow> dmap m u = Some 0"
    and bound: "\<And>u d. dmap m u = Some d \<Longrightarrow> (\<Sum>p\<in>pending m. ?f u p) \<le> unat d"
    unfolding sched_inv_def by blast+
  from greedy_admit_partition [OF ga] dw
  have part: "set a \<union> set q = set (worklist m)" "distinct a" "distinct q" "set a \<inter> set q = {}"
    by blast+
  have a_nodes: "set a \<subseteq> set (nodes ?g)"
    using part(1) wp pushed_in_nodes [OF inv] by blast
  have a_pend: "set a \<subseteq> pending m"
    using part(1) a_nodes by (auto simp: pending_def)
  have fin: "finite (pending m)" by (simp add: pending_def)
  have cntT: "\<And>u. count_list T u = (\<Sum>p\<in>set a. ?f u p)"
    using part(2) by (simp add: T_def count_list_concat comp_def sum_list_distinct_conv_sum_set)
  have round: "sched_round B m = dec_all T ma"
    by (simp add: sched_round_def greedyPick_eq ga visit_picked_dec ma_def T_def)
  have T_dom: "set T \<subseteq> dom (dmap ma)"
  proof
    fix t assume "t \<in> set T"
    then obtain p v where "p \<in> set a" "v \<in> set (outputs (nodeAt ?g p))" "t \<in> set (consumers ?g v)"
      by (auto simp: T_def targets_def)
    with a_nodes wf have "t \<in> set (schedulable ?g)" unfolding wf_graph_def by blast
    then show "t \<in> dom (dmap ma)" using dm by (simp add: ma_def)
  qed
  have T_cnt: "\<forall>u d. dmap ma u = Some d \<longrightarrow> count_list T u \<le> unat d"
  proof (intro allI impI)
    fix u d assume "dmap ma u = Some d"
    then have d: "dmap m u = Some d" by (simp add: ma_def)
    have "count_list T u \<le> (\<Sum>p\<in>pending m. ?f u p)"
      unfolding cntT using a_pend fin by (intro sum_mono2) auto
    with bound [OF d] show "count_list T u \<le> unat d" by simp
  qed
  have pre: "dec_pre T ma"
    unfolding dec_pre_def using T_dom T_cnt dp part wp iff by (auto simp: ma_def)
  from dec_all_inv [OF pre] obtain m' where run: "dec_all T ma = Some m'" and post: "dec_post T ma m'"
    by blast
  from post obtain new where g': "graph m' = ?g" and dom': "dom (dmap m') = dom (dmap m)"
    and cnt': "\<And>u d. dmap m u = Some d \<Longrightarrow> \<exists>d'. dmap m' u = Some d' \<and> unat d' + count_list T u = unat d"
    and pl': "pushlog m' = pushlog m @ new" and wl': "worklist m' = q @ new"
    and dp': "distinct (pushlog m')" and dw': "distinct (worklist m')"
    and iff': "\<And>u. u \<in> set (pushlog m') \<longleftrightarrow> dmap m' u = Some 0"
    unfolding dec_post_def by (auto simp: ma_def)
  have new_fresh: "set new \<inter> set (pushlog m) = {}" using dp' pl' by auto
  have pend_sub: "pending m' \<subseteq> pending m"
    using g' pl' wl' part(1) new_fresh by (auto simp: pending_def)
  have pend_disj: "pending m' \<inter> set a = {}"
    using g' pl' wl' part wp new_fresh by (auto simp: pending_def)
  have bound': "\<forall>u d'. dmap m' u = Some d' \<longrightarrow> (\<Sum>p\<in>pending m'. count_list (targets (graph m') p) u) \<le> unat d'"
  proof (intro allI impI)
    fix u d' assume d': "dmap m' u = Some d'"
    then have "u \<in> dom (dmap m)" using dom' by blast
    then obtain d where d: "dmap m u = Some d" by blast
    from cnt' [OF d] d' have e: "unat d' + count_list T u = unat d" by simp
    have "(\<Sum>p\<in>pending m'. ?f u p) + (\<Sum>p\<in>set a. ?f u p) = (\<Sum>p\<in>pending m' \<union> set a. ?f u p)"
      using pend_disj fin pend_sub by (intro sum.union_disjoint [symmetric]) (auto intro: finite_subset)
    also have "\<dots> \<le> (\<Sum>p\<in>pending m. ?f u p)"
      using pend_sub a_pend fin by (intro sum_mono2) auto
    also have "\<dots> \<le> unat d" by (rule bound [OF d])
    finally show "(\<Sum>p\<in>pending m'. count_list (targets (graph m') p) u) \<le> unat d'"
      using e cntT by (simp add: g')
  qed
  have "sched_inv m'"
    unfolding sched_inv_def using wf g' dom' dm dp' dw' iff' bound' pl' wl' part(1) wp by auto
  with round run g' pl' show ?thesis by auto
qed

lemma seed_worklist_eq:
  "(\<forall>n \<in> set ns. kind (nodeAt (graph m) n) \<noteq> kUndefined \<longrightarrow> dmap m n \<noteq> None) \<Longrightarrow>
   seed_worklist ns m =
     m\<lparr>worklist := worklist m
          @ filter (\<lambda>n. kind (nodeAt (graph m) n) \<noteq> kUndefined \<and> dmap m n = Some 0) ns,
       pushlog := pushlog m
          @ filter (\<lambda>n. kind (nodeAt (graph m) n) \<noteq> kUndefined \<and> dmap m n = Some 0) ns\<rparr>"
proof (induction ns arbitrary: m)
  case Nil
  then show ?case by simp
next
  case (Cons n ns)
  show ?case
  proof (cases "kind (nodeAt (graph m) n) \<noteq> kUndefined \<and> dmap m n = Some 0")
    case True
    have "\<forall>k\<in>set ns. kind (nodeAt (graph (push_back_worklist n m)) k) \<noteq> kUndefined
            \<longrightarrow> dmap (push_back_worklist n m) k \<noteq> None"
      using Cons.prems by (simp add: push_back_worklist_def)
    from Cons.IH [OF this] True show ?thesis
      by (simp add: push_back_worklist_def)
  next
    case False
    have "\<forall>n\<in>set ns. kind (nodeAt (graph m) n) \<noteq> kUndefined \<longrightarrow> dmap m n \<noteq> None"
      using Cons.prems by simp
    from Cons.IH [OF this] False Cons.prems show ?thesis
      by (auto split: option.splits)
  qed
qed

lemma schedule_start:
  "schedule fuel B m =
     sched_loop fuel B
       (m\<lparr>dmap := fst (BuildDegreeMap (graph m)),
          outs := outs m @ snd (BuildDegreeMap (graph m)),
          worklist := filter (\<lambda>n. kind (nodeAt (graph m) n) \<noteq> kUndefined
                                 \<and> degree_of (graph m) n = 0) (nodes (graph m)),
          pushlog := filter (\<lambda>n. kind (nodeAt (graph m) n) \<noteq> kUndefined
                                 \<and> degree_of (graph m) n = 0) (nodes (graph m))\<rparr>)"
proof -
  let ?m0 = "m\<lparr>dmap := fst (BuildDegreeMap (graph m)), worklist := [], pushlog := [],
               outs := outs m @ snd (BuildDegreeMap (graph m))\<rparr>"
  let ?zs = "filter (\<lambda>n. kind (nodeAt (graph m) n) \<noteq> kUndefined
                                 \<and> degree_of (graph m) n = 0) (nodes (graph m))"
  have h: "\<forall>n \<in> set (nodes (graph m)).
             kind (nodeAt (graph ?m0) n) \<noteq> kUndefined \<longrightarrow> dmap ?m0 n \<noteq> None"
    by (simp add: BuildDegreeMap_eq)
  have f: "filter (\<lambda>n. kind (nodeAt (graph ?m0) n) \<noteq> kUndefined \<and> dmap ?m0 n = Some 0)
             (nodes (graph m)) = ?zs"
    by (rule filter_cong) (auto simp: BuildDegreeMap_eq)
  have "seed_worklist (nodes (graph m)) ?m0 = ?m0\<lparr>worklist := worklist ?m0 @ ?zs,
          pushlog := pushlog ?m0 @ ?zs\<rparr>"
    unfolding seed_worklist_eq [OF h] f ..
  then show ?thesis
    by (cases "BuildDegreeMap (graph m)") (simp add: schedule_def)
qed

lemma sched_inv_start:
  assumes wf: "wf_graph (graph m)"
  shows "sched_inv
       (m\<lparr>dmap := fst (BuildDegreeMap (graph m)),
          outs := outs m @ snd (BuildDegreeMap (graph m)),
          worklist := filter (\<lambda>n. kind (nodeAt (graph m) n) \<noteq> kUndefined
                                 \<and> degree_of (graph m) n = 0) (nodes (graph m)),
          pushlog := filter (\<lambda>n. kind (nodeAt (graph m) n) \<noteq> kUndefined
                                 \<and> degree_of (graph m) n = 0) (nodes (graph m))\<rparr>)"
    (is "sched_inv ?m1")
proof -
  let ?g = "graph m"
  have dist: "distinct (nodes ?g)" using wf by (simp add: wf_graph_def)
  have dom: "dom (dmap ?m1) = set (schedulable ?g)"
    by (auto simp: BuildDegreeMap_eq schedulable_def split: if_splits)
  have iff: "\<forall>u. u \<in> set (pushlog ?m1) \<longleftrightarrow> dmap ?m1 u = Some 0"
    by (auto simp: BuildDegreeMap_eq)
  have pend: "pending ?m1 = set (nodes ?g)"
    by (auto simp: pending_def)
  have bound: "\<forall>u d. dmap ?m1 u = Some d \<longrightarrow>
        (\<Sum>p\<in>pending ?m1. count_list (targets (graph ?m1) p) u) \<le> unat d"
  proof (intro allI impI)
    fix u d assume "dmap ?m1 u = Some d"
    then have "u \<in> set (nodes ?g)" "d = degree_of ?g u"
      by (auto simp: BuildDegreeMap_eq split: if_splits)
    with total_decrements_le_degree [OF wf, of u]
    show "(\<Sum>p\<in>pending ?m1. count_list (targets (graph ?m1) p) u) \<le> unat d"
      unfolding pend by simp
  qed
  show ?thesis
    unfolding sched_inv_def using wf dist dom iff bound by simp
qed

lemma sched_loop_inv:
  "sched_inv m \<Longrightarrow>
   \<exists>m'. (sched_loop fuel B m = Running m' \<or> sched_loop fuel B m = Returned kModuleNoChanged m')
        \<and> sched_inv m' \<and> graph m' = graph m"
proof (induction fuel arbitrary: m)
  case 0
  then show ?case by auto
next
  case (Suc k)
  show ?case
  proof (cases "worklist m = []")
    case True
    with Suc.prems show ?thesis by auto
  next
    case False
    from sched_round_inv [OF Suc.prems, of B] obtain m1
      where r: "sched_round B m = Some m1" and i: "sched_inv m1" and g: "graph m1 = graph m"
      by blast
    from Suc.IH [OF i] g r False show ?thesis by auto
  qed
qed

text \<open>
  Claim C9. Let the graph handed to the scheduler (the result of the boundary
  normalisation) be well formed. Then, whatever the number of rounds, the run has not
  aborted, and in its state no node occurs twice in the log of the pushes onto the
  worklist, a node is in that log iff its count in the degree map is zero, and the
  degree map holds exactly the nodes that are not of the undefined kind. Acyclicity is
  not needed: the nodes of a cycle never reach zero.
\<close>

theorem worklist_pushed_once:
  assumes nb: "normalize_boundary (graph m) = Some g" and wf: "wf_graph g"
  shows "\<exists>m'. (runOnModule fuel (Some B) m = Running m'
               \<or> runOnModule fuel (Some B) m = Returned kModuleNoChanged m')
             \<and> distinct (pushlog m')
             \<and> (\<forall>u. u \<in> set (pushlog m') \<longleftrightarrow> dmap m' u = Some 0)
             \<and> dom (dmap m') = set (schedulable g)"
proof -
  let ?m = "(clear m)\<lparr>graph := g\<rparr>"
  have run: "runOnModule fuel (Some B) m = schedule fuel B ?m"
    using nb by (simp add: runOnModule_def clear_def)
  have "wf_graph (graph ?m)" using wf by simp
  from sched_inv_start [OF this] have "sched_inv
       (?m\<lparr>dmap := fst (BuildDegreeMap (graph ?m)),
          outs := outs ?m @ snd (BuildDegreeMap (graph ?m)),
          worklist := filter (\<lambda>n. kind (nodeAt (graph ?m) n) \<noteq> kUndefined
                                 \<and> degree_of (graph ?m) n = 0) (nodes (graph ?m)),
          pushlog := filter (\<lambda>n. kind (nodeAt (graph ?m) n) \<noteq> kUndefined
                                 \<and> degree_of (graph ?m) n = 0) (nodes (graph ?m))\<rparr>)" .
  from sched_loop_inv [OF this, of fuel B] obtain m'
    where o: "schedule fuel B ?m = Running m' \<or> schedule fuel B ?m = Returned kModuleNoChanged m'"
      and i: "sched_inv m'" and g: "graph m' = g"
    unfolding schedule_start by auto
  from i g have "distinct (pushlog m')" "\<forall>u. u \<in> set (pushlog m') \<longleftrightarrow> dmap m' u = Some 0"
    "dom (dmap m') = set (schedulable g)"
    unfolding sched_inv_def by auto
  with o run show ?thesis by auto
qed

text \<open>
  The example \<open>m_io\<close>: normalisation puts the Load node 6 first and the Store node 7
  last, and the result is well formed; the first round admits the Load node and makes
  node 1 ready.
\<close>

lemma norm_io: "\<exists>g. normalize_boundary (graph m_io) = Some g \<and> nodes g = [6, 1, 2, 7] \<and> wf_graph g"
  by (simp add: m_io_def g_io_def graph_ops Let_def wf_graph_def consumers_def schedulable_def kUndefined_def kReturn_def)

lemma run_io: "\<exists>m'. runOnModule 1 (Some B_mod) m_io = Running m' \<and> pushlog m' = [6, 1] \<and> worklist m' = [1]"
  by (simp add: runOnModule_def clear_def m_io_def g_io_def graph_ops Let_def schedule_def BuildDegreeMap_def
     kUndefined_def kReturn_def push_back_worklist_def sched_round_def greedyPick_eq B_mod_def
     ensure_entry_def available_def addExeResUser_def)

theorem worklist_pushed_once_witness:
  "\<exists>g. normalize_boundary (graph m_io) = Some g \<and> wf_graph g
     \<and> (\<exists>m'. (runOnModule 3 (Some B_mod) m_io = Running m'
                 \<or> runOnModule 3 (Some B_mod) m_io = Returned kModuleNoChanged m')
               \<and> distinct (pushlog m')
               \<and> (\<forall>u. u \<in> set (pushlog m') \<longleftrightarrow> dmap m' u = Some 0)
               \<and> dom (dmap m') = set (schedulable g))"
proof -
  from norm_io obtain g where n: "normalize_boundary (graph m_io) = Some g" and w: "wf_graph g"
    by blast
  from worklist_pushed_once [OF n w, of 3 B_mod] n w show ?thesis by blast
qed

section \<open>The capacity invariant at an example\<close>

theorem capacity_never_exceeded_witness:
  "map_of L_full 1 = Some [\<lparr>user = 7, remainCycles = 2\<rparr>]
   \<and> isExeResAvailable B_mod L_full 1 = Some False
   \<and> cap_ok B_mod L_full
   \<and> greedyPickNextNodes B_mod [1, 2] L_full
       = Some ([2], [1], [(1, [\<lparr>user = 7, remainCycles = 2\<rparr>]), (0, [\<lparr>user = 2, remainCycles = 4\<rparr>])])
   \<and> cap_ok B_mod [(1, [\<lparr>user = 7, remainCycles = 2\<rparr>]), (0, [\<lparr>user = 2, remainCycles = 4\<rparr>])]
   \<and> queryExeResType B_mod 2 \<noteq> 1
   \<and> (\<exists>m'. runOnModule 1 (Some B_mod) m_io = Running m' \<and> cap_ok B_mod (m_ExeResUsers m'))"
proof -
  obtain m' where r: "runOnModule 1 (Some B_mod) m_io = Running m'"
    using run_io by blast
  have h1: "map_of L_full 1 = Some [\<lparr>user = 7, remainCycles = 2\<rparr>]"
    by (simp add: L_full_def)
  have h2: "isExeResAvailable B_mod L_full 1 = Some False"
    by (simp add: isExeResAvailable_def L_full_def B_mod_def)
  have h3: "cap_ok B_mod L_full"
    by (simp add: cap_ok_def L_full_def B_mod_def)
  have h4: "greedyPickNextNodes B_mod [1, 2] L_full
       = Some ([2], [1], [(1, [\<lparr>user = 7, remainCycles = 2\<rparr>]), (0, [\<lparr>user = 2, remainCycles = 4\<rparr>])])"
    by (simp add: greedyPick_eq L_full_def B_mod_def ensure_entry_def available_def
          addExeResUser_def Let_def)
  note T = capacity_never_exceeded [where L = L_full and r = 1 and B = B_mod
      and us = "[\<lparr>user = 7, remainCycles = 2\<rparr>]" and c = "[1, 2]" and nxt = "[2]" and q = "[1]"
      and L' = "[(1, [\<lparr>user = 7, remainCycles = 2\<rparr>]), (0, [\<lparr>user = 2, remainCycles = 4\<rparr>])]"
      and fuel = 1 and m = m_io and m' = m']
  from T h2 h4 have "\<forall>n \<in> set [2]. queryExeResType B_mod n \<noteq> 1" by blast
  then have h5: "queryExeResType B_mod 2 \<noteq> 1" by simp
  from T h1 h2 h3 h4 h5 r show ?thesis by blast
qed

section \<open>Runs that never return\<close>

lemma sched_loop_from_one:
  assumes one: "sched_loop 1 B m0 = Running m1" and fx: "sched_round B m1 = Some m1"
  shows "sched_loop (Suc k) B m0 = Running m1"
proof -
  from one have w0: "worklist m0 \<noteq> []" by (auto split: if_splits)
  with one obtain m' where r: "sched_round B m0 = Some m'" and l: "sched_loop 0 B m' = Running m1"
    by (auto split: option.splits)
  from l have e: "m' = m1" and w1: "worklist m1 \<noteq> []" by (auto split: if_splits)
  from w0 r e have "sched_loop (Suc k) B m0 = sched_loop k B m1" by simp
  also have "\<dots> = Running m1" by (rule sched_loop_stuck [OF fx w1])
  finally show ?thesis .
qed

lemma runOnModule_entry:
  assumes nb: "normalize_boundary (graph m) = Some g"
  shows "\<exists>m0. \<forall>fuel. runOnModule fuel (Some B) m = sched_loop fuel B m0"
proof -
  have "\<And>fuel. runOnModule fuel (Some B) m = schedule fuel B ((clear m)\<lparr>graph := g\<rparr>)"
    using nb by (simp add: runOnModule_def clear_def)
  then show ?thesis unfolding schedule_start by blast
qed

lemma entry_io: "\<exists>m0. \<forall>fuel. runOnModule fuel (Some B_one) m_io = sched_loop fuel B_one m0"
  using norm_io runOnModule_entry by blast

lemma stuck_io:
  "\<exists>m1. runOnModule 1 (Some B_one) m_io = Running m1 \<and> sched_round B_one m1 = Some m1
        \<and> worklist m1 = [1] \<and> m_ExeResUsers m1 = [(0, [\<lparr>user = 6, remainCycles = 4\<rparr>])]"
  by (simp add: runOnModule_def clear_def m_io_def g_io_def graph_ops Let_def schedule_def
        BuildDegreeMap_def kUndefined_def kReturn_def push_back_worklist_def sched_round_def
        greedyPick_eq B_one_def ensure_entry_def available_def addExeResUser_def)

lemma run_io_forever:
  "\<exists>m. runOnModule fuel (Some B_one) m_io = Running m \<and> worklist m \<noteq> []"
proof -
  from entry_io obtain m0 where e: "\<And>fuel. runOnModule fuel (Some B_one) m_io = sched_loop fuel B_one m0"
    by blast
  from stuck_io obtain m1 where one: "runOnModule 1 (Some B_one) m_io = Running m1"
    and fx: "sched_round B_one m1 = Some m1" and w: "worklist m1 = [1]"
    by blast
  from one have one': "sched_loop 1 B_one m0 = Running m1" by (simp add: e)
  show ?thesis
  proof (cases fuel)
    case 0
    from one' have "worklist m0 \<noteq> []" by (auto split: if_splits)
    then show ?thesis using 0 by (simp add: e)
  next
    case (Suc k)
    from sched_loop_from_one [OF one' fx, of k] w show ?thesis
      using Suc by (simp add: e)
  qed
qed

text \<open>
  Claim C4, at two finite acyclic graphs on the backend \<open>B_one\<close>, whose only resource
  has one unit. The run \<open>m_two\<close> has two independent nodes; the run \<open>m_io\<close> has, once
  normalised, the chain Load, Conv, Relu, Store. In both the first round admits one
  node, which keeps the unit for ever, and the next node stays on the worklist: for no
  bound on the rounds does \<^verbatim>\<open>runOnModule\<close> return.
\<close>

theorem runOnModule_loops_forever:
  "(\<forall>fuel. \<exists>m. runOnModule fuel (Some B_one) m_two = Running m \<and> worklist m \<noteq> [])
   \<and> (\<forall>fuel. \<exists>m. runOnModule fuel (Some B_one) m_io = Running m \<and> worklist m \<noteq> [])"
proof (intro conjI allI)
  fix fuel
  show "\<exists>m. runOnModule fuel (Some B_one) m_two = Running m \<and> worklist m \<noteq> []"
  proof (cases fuel)
    case 0
    then show ?thesis by (simp add: run_two m_seeded_def)
  next
    case (Suc k)
    then show ?thesis by (simp add: run_two_Suc m_stuck_def)
  qed
next
  fix fuel
  show "\<exists>m. runOnModule fuel (Some B_one) m_io = Running m \<and> worklist m \<noteq> []"
    by (rule run_io_forever)
qed

end
